theory Spec2Isabelle
  imports Complex_Main "HOL-Library.Log_Nat" "HOL-Library.Sublist" "HOL-Library.AList"
begin

section \<open>Python values used by \<open>lpd8_voicemeeterish.py\<close>\<close>

text \<open>
  The script is Python 3. Its exceptions are values of \<open>py_error\<close>; a function that can
  raise returns \<open>py_error + 'a\<close> with \<open>Inl\<close> for the exception.
\<close>

datatype py_error =
    OverflowError
  | ValueError
  | RuntimeError string
  | KeyError
  | CalledProcessError int
  | OSError

subsection \<open>Floats\<close>

text \<open>
  A Python float is an IEEE 754 binary64 number. A finite one is modelled by the rational
  it denotes; every operation computes the exact rational result and rounds it to the
  nearest binary64 number, ties to even (\<open>rne64\<close>): 53 significant bits for a normal
  number, the fixed spacing \<open>2 powi - 1074\<close> below \<open>2 powi - 1022\<close>, and an infinity
  when the rounded magnitude reaches \<open>2 ^ 1024\<close>. The sign of a zero is not kept
  (\<open>round\<close> maps both zeros to the integer 0).
\<close>

datatype py_float = Finite rat | PosInf | NegInf

definition ilog2 :: "rat \<Rightarrow> int" where
  \<comment> \<open>for \<open>0 < x\<close>: the \<open>k\<close> with \<open>2 powi k \<le> x < 2 powi (k + 1)\<close>\<close>
  "ilog2 x = (let (p, q) = quotient_of x; k = bitlen p - bitlen q
              in if 2 powi k \<le> x then k else k - 1)"

definition round_half_even :: "rat \<Rightarrow> int" where
  "round_half_even x = (let f = \<lfloor>x\<rfloor>; d = x - of_int f in
     if d < 1 / 2 then f else if 1 / 2 < d then f + 1 else if even f then f else f + 1)"

definition rne64 :: "rat \<Rightarrow> rat" where
  "rne64 x = (if x = 0 then 0 else
     let e = max (ilog2 \<bar>x\<bar> - 52) (- 1074)
     in of_int (round_half_even (x / 2 powi e)) * 2 powi e)"

definition to_float :: "rat \<Rightarrow> py_float" where
  "to_float x = (let r = rne64 x in
     if 2 ^ 1024 \<le> r then PosInf else if r \<le> - (2 ^ 1024) then NegInf else Finite r)"

definition float_of_int :: "int \<Rightarrow> py_error + py_float" where
  \<comment> \<open>the conversion of an \<open>int\<close> operand of a float operation: too large an \<open>int\<close>
      raises OverflowError\<close>
  "float_of_int n = (case to_float (of_int n) of Finite r \<Rightarrow> Inr (Finite r) | _ \<Rightarrow> Inl OverflowError)"

fun float_truediv :: "py_float \<Rightarrow> rat \<Rightarrow> py_float" where
  \<comment> \<open>\<open>x / c\<close> for a finite float \<open>c \<noteq> 0\<close>\<close>
  "float_truediv (Finite x) c = to_float (x / c)"
| "float_truediv PosInf c = (if 0 < c then PosInf else NegInf)"
| "float_truediv NegInf c = (if 0 < c then NegInf else PosInf)"

fun float_mul :: "py_float \<Rightarrow> rat \<Rightarrow> py_float" where
  \<comment> \<open>\<open>x * c\<close> for a finite float \<open>c \<noteq> 0\<close>\<close>
  "float_mul (Finite x) c = to_float (x * c)"
| "float_mul PosInf c = (if 0 < c then PosInf else NegInf)"
| "float_mul NegInf c = (if 0 < c then NegInf else PosInf)"

fun py_round :: "py_float \<Rightarrow> py_error + int" where
  \<comment> \<open>\<open>round(x)\<close> with one argument: the nearest \<open>int\<close>, ties to even; an infinity raises\<close>
  "py_round (Finite x) = Inr (round_half_even x)"
| "py_round PosInf = Inl OverflowError"
| "py_round NegInf = Inl OverflowError"

subsection \<open>Strings\<close>

text \<open>
  A Python \<open>str\<close> is modelled by a \<open>string\<close> whose characters stand for the code points
  0 to 255; the character classes below are Python's on these code points. Text with
  code points above 255 is outside the model.
\<close>

definition isspace :: "char \<Rightarrow> bool" where
  \<comment> \<open>\<open>str.isspace\<close>, the characters \<open>str.strip()\<close> removes and the class \<open>\s\<close> of \<open>re\<close>\<close>
  "isspace c \<longleftrightarrow> c \<in> {CHR 0x09, CHR 0x0A, CHR 0x0B, CHR 0x0C, CHR 0x0D, CHR 0x1C, CHR 0x1D,
     CHR 0x1E, CHR 0x1F, CHR 0x20, CHR 0x85, CHR 0xA0}"

definition is_linebreak :: "char \<Rightarrow> bool" where
  \<comment> \<open>the line boundaries of \<open>str.splitlines()\<close>\<close>
  "is_linebreak c \<longleftrightarrow> c \<in> {CHR 0x0A, CHR 0x0B, CHR 0x0C, CHR 0x0D, CHR 0x1C, CHR 0x1D,
     CHR 0x1E, CHR 0x85}"

definition isdigit :: "char \<Rightarrow> bool" where
  \<comment> \<open>the class \<open>\d\<close> of \<open>re\<close>\<close>
  "isdigit c \<longleftrightarrow> c \<in> set ''0123456789''"

definition strip :: "string \<Rightarrow> string" where
  "strip s = rev (dropWhile isspace (rev (dropWhile isspace s)))"

definition startswith :: "string \<Rightarrow> string \<Rightarrow> bool" where
  "startswith s p \<longleftrightarrow> prefix p s"

function splitlines :: "string \<Rightarrow> string list" where
  "splitlines s =
     (if s = [] then []
      else takeWhile (\<lambda>c. \<not> is_linebreak c) s #
        (case dropWhile (\<lambda>c. \<not> is_linebreak c) s of
           [] \<Rightarrow> []
         | c # r \<Rightarrow>
             (case r of
                [] \<Rightarrow> []
              | d # r' \<Rightarrow> if c = CHR 0x0D \<and> d = CHR 0x0A then splitlines r' else splitlines r)))"
  by pat_completeness auto
termination
proof (relation "measure length")
  show "wf (measure length)" by simp
next
  fix s :: string and c r d r'
  assume "dropWhile (\<lambda>c. \<not> is_linebreak c) s = c # r" and "r = d # r'"
  then have "length s \<ge> length (c # d # r')"
    by (metis length_dropWhile_le)
  then show "(r', s) \<in> measure length" by simp
next
  fix s :: string and c r d r'
  assume "dropWhile (\<lambda>c. \<not> is_linebreak c) s = c # r" and "r = d # r'"
  then have "length s \<ge> length (c # r)"
    by (metis length_dropWhile_le)
  then show "(r, s) \<in> measure length" by simp
qed

declare splitlines.simps [simp del]

definition lower_char :: "char \<Rightarrow> char" where
  "lower_char c =
     (let n = (of_char c :: nat)
      in if (65 \<le> n \<and> n \<le> 90) \<or> (192 \<le> n \<and> n \<le> 222 \<and> n \<noteq> 215) then char_of (n + 32) else c)"

definition lower :: "string \<Rightarrow> string" where
  "lower s = map lower_char s"

fun py_in :: "string \<Rightarrow> string \<Rightarrow> bool" where
  \<comment> \<open>\<open>x in s\<close> on strings: \<open>x\<close> occurs in \<open>s\<close> as a contiguous substring\<close>
  "py_in x [] \<longleftrightarrow> x = []"
| "py_in x (c # s) \<longleftrightarrow> prefix x (c # s) \<or> py_in x s"

text \<open>
  Conversions between \<open>int\<close> and decimal text. CPython refuses a conversion of more than
  \<open>maxd\<close> digits with a ValueError when the limit \<open>maxd\<close> (sys.get_int_max_str_digits(),
  4300 unless configured, 0 for none) is set and the text has more than 640 digits.
\<close>

definition too_many_digits :: "nat \<Rightarrow> nat \<Rightarrow> bool" where
  "too_many_digits maxd n \<longleftrightarrow> 640 < n \<and> 0 < maxd \<and> maxd < n"

definition digit_val :: "char \<Rightarrow> int" where
  "digit_val c = int (of_char c) - 48"

definition py_int :: "nat \<Rightarrow> string \<Rightarrow> py_error + int" where
  \<comment> \<open>\<open>int(s)\<close> for a non-empty text \<open>s\<close> of decimal digits\<close>
  "py_int maxd s =
     (if too_many_digits maxd (length s) then Inl ValueError
      else Inr (foldl (\<lambda>a c. 10 * a + digit_val c) 0 s))"

fun digits10 :: "nat \<Rightarrow> string" where
  "digits10 n =
     (if n < 10 then [char_of (48 + n)] else digits10 (n div 10) @ [char_of (48 + n mod 10)])"

declare digits10.simps [simp del]

definition py_str :: "nat \<Rightarrow> int \<Rightarrow> py_error + string" where
  \<comment> \<open>\<open>str(i)\<close>, also the \<open>{i}\<close> of an f-string\<close>
  "py_str maxd i =
     (let ds = digits10 (nat \<bar>i\<bar>)
      in if too_many_digits maxd (length ds) then Inl ValueError
         else Inr (if i < 0 then CHR ''-'' # ds else ds))"

definition isprintable :: "char \<Rightarrow> bool" where
  "isprintable c \<longleftrightarrow>
     (let n = (of_char c :: nat) in \<not> (n < 32 \<or> (127 \<le> n \<and> n \<le> 160) \<or> n = 173))"

definition hex_digit :: "nat \<Rightarrow> char" where
  "hex_digit n = ''0123456789abcdef'' ! n"

definition repr_char :: "char \<Rightarrow> char \<Rightarrow> string" where
  "repr_char q c =
     (if c = q \<or> c = CHR 0x5C then [CHR 0x5C, c]
      else if c = CHR 0x09 then [CHR 0x5C, CHR ''t'']
      else if c = CHR 0x0A then [CHR 0x5C, CHR ''n'']
      else if c = CHR 0x0D then [CHR 0x5C, CHR ''r'']
      else if \<not> isprintable c
        then [CHR 0x5C, CHR ''x'', hex_digit (of_char c div 16), hex_digit (of_char c mod 16)]
      else [c])"

definition repr_str :: "string \<Rightarrow> string" where
  \<comment> \<open>\<open>repr(s)\<close>: double quotes only when \<open>s\<close> has a single quote and no double quote\<close>
  "repr_str s =
     (let q = (if CHR 0x27 \<in> set s \<and> CHR 0x22 \<notin> set s then CHR 0x22 else CHR 0x27)
      in q # concat (map (repr_char q) s) @ [q])"

fun join :: "string \<Rightarrow> string list \<Rightarrow> string" where
  "join sep [] = []"
| "join sep [x] = x"
| "join sep (x # y # xs) = x @ sep @ join sep (y # xs)"

definition repr_str_list :: "string list \<Rightarrow> string" where
  \<comment> \<open>\<open>repr\<close> (and \<open>str\<close>) of a list of strings\<close>
  "repr_str_list xs = ''['' @ join '', '' (map repr_str xs) @ '']''"

section \<open>The volume setter\<close>

text \<open>
  Line 61 of the script, \<open>pct = int(round((value_0_127 / 127.0) * 100))\<close>: the \<open>int\<close>
  argument becomes a float, is divided by the float 127.0, multiplied by the float of the
  \<open>int\<close> 100, and rounded to an \<open>int\<close> (on which \<open>int(...)\<close> is the identity).
\<close>

definition pct :: "int \<Rightarrow> py_error + int" where
  "pct value_0_127 =
     (case float_of_int value_0_127 of
        Inl e \<Rightarrow> Inl e
      | Inr x \<Rightarrow> py_round (float_mul (float_truediv x 127) 100))"

section \<open>Configuration\<close>

text \<open>The module-level constants of the script; nothing assigns to them after start.\<close>

definition MIDI_PORT_HINT :: string where
  "MIDI_PORT_HINT = ''LPD8''"

definition CC_TO_BUS :: "(int \<times> string) list" where
  "CC_TO_BUS = [(1, ''VM-GAME''), (2, ''VM-CHAT''), (3, ''VM-MUSIC'')]"

section \<open>The world outside the script\<close>

text \<open>
  What the script does to its environment is a trace of events, and what the environment
  answers is a function of the trace so far: the result of an external command
  (\<open>subprocess.check_output\<close>, which raises when the command fails), the list
  \<open>mido.get_input_names()\<close> returns, and the interpreter's limit on int/str conversions.
  A Python dict is an association list in insertion order; \<open>d[k] = v\<close> is
  \<open>AList.update k v d\<close>, which keeps the place of a key already present.
\<close>

datatype event =
    Print string
  | Sh "string list"
  | Get_input_names
  | Open_input string
  | Close_input

record world =
  int_max_str_digits :: nat
  check_output :: "event list \<Rightarrow> string list \<Rightarrow> py_error + string"
  get_input_names :: "event list \<Rightarrow> string list"

datatype midi_msg =
    Control_change (channel: int) (control: int) (msg_value: int)
  | Other_message

datatype outcome = Exit int | Uncaught py_error | Returned

fun exit_status :: "outcome \<Rightarrow> int" where
  "exit_status (Exit n) = n"
| "exit_status (Uncaught e) = 1"
| "exit_status Returned = 0"

definition sh :: "world \<Rightarrow> string list \<Rightarrow> event list \<Rightarrow> (py_error + string) \<times> event list" where
  "sh w cmd tr = (check_output w tr cmd, tr @ [Sh cmd])"

section \<open>The sink resolver\<close>

text \<open>
  \<open>line_re\<close> is \<open>^\s*(\*?\s*)?(\d+)\.\s+(.+?)\s+\[vol:\<close>, applied with \<open>match\<close>, that is at
  the start of the line. Up to the dot a match is unique: white space, at most one star,
  white space, then the whole run of digits (group 2), since neither a star nor white
  space nor the dot is a digit. After the dot the matcher backtracks: the greedy \<open>\s+\<close>
  first takes all the white space and then gives characters back one at a time
  (\<open>after_dot\<close>); for each choice the lazy group 3 starts with one character and grows one
  character at a time (\<open>group3_end\<close>) until \<open>\s+\[vol:\<close> matches what follows
  (\<open>vol_tail\<close>: white space up to the bracket, which is not white space). The dot of the
  pattern matches every character but the line feed.
\<close>

definition vol_tail :: "string \<Rightarrow> bool" where
  "vol_tail t \<longleftrightarrow> takeWhile isspace t \<noteq> [] \<and> prefix ''[vol:'' (dropWhile isspace t)"

fun group3_end :: "string \<Rightarrow> string \<Rightarrow> string option" where
  "group3_end g [] = None"
| "group3_end g (c # t) =
     (if vol_tail (c # t) then Some g
      else if c = CHR 0x0A then None
      else group3_end (g @ [c]) t)"

fun group3 :: "string \<Rightarrow> string option" where
  "group3 [] = None"
| "group3 (c # t) = (if c = CHR 0x0A then None else group3_end [c] t)"

fun after_dot :: "nat \<Rightarrow> string \<Rightarrow> string option" where
  "after_dot 0 r = None"
| "after_dot (Suc k) r =
     (case group3 (drop (Suc k) r) of
        Some g \<Rightarrow> Some g
      | None \<Rightarrow> after_dot k r)"

definition line_re_match :: "string \<Rightarrow> (string \<times> string) option" where
  \<comment> \<open>the groups 2 and 3 of the match, if there is one\<close>
  "line_re_match line =
     (let l1 = dropWhile isspace line;
          l2 = (case l1 of [] \<Rightarrow> [] | c # t \<Rightarrow> if c = CHR ''*'' then t else l1);
          l3 = dropWhile isspace l2;
          ds = takeWhile isdigit l3
      in if ds = [] then None
         else (case dropWhile isdigit l3 of
                 [] \<Rightarrow> None
               | c # r \<Rightarrow>
                   if c \<noteq> CHR ''.'' then None
                   else (case after_dot (length (takeWhile isspace r)) r of
                           None \<Rightarrow> None
                         | Some g \<Rightarrow> Some (ds, g))))"

fun scan_lines ::
  "nat \<Rightarrow> bool \<Rightarrow> (string \<times> int) list \<Rightarrow> string list \<Rightarrow> py_error + (string \<times> int) list" where
  "scan_lines maxd sinks_section out [] = Inr out"
| "scan_lines maxd sinks_section out (line # rest) =
     (if startswith (strip line) ''Sinks:'' then scan_lines maxd True out rest
      else if sinks_section \<and> startswith (strip line) ''Sources:'' then Inr out
      else if \<not> sinks_section then scan_lines maxd sinks_section out rest
      else (case line_re_match line of
              None \<Rightarrow> scan_lines maxd sinks_section out rest
            | Some (g2, g3) \<Rightarrow>
                (case py_int maxd g2 of
                   Inl e \<Rightarrow> Inl e
                 | Inr sink_id \<Rightarrow>
                     scan_lines maxd sinks_section (AList.update (strip g3) sink_id out) rest)))"

definition get_sink_ids_by_description ::
  "world \<Rightarrow> event list \<Rightarrow> (py_error + (string \<times> int) list) \<times> event list" where
  "get_sink_ids_by_description w tr =
     (case sh w [''wpctl'', ''status''] tr of
        (Inl e, tr') \<Rightarrow> (Inl e, tr')
      | (Inr txt, tr') \<Rightarrow>
          (scan_lines (int_max_str_digits w) False [] (splitlines txt), tr'))"

section \<open>The port locator\<close>

fun first_port :: "string list \<Rightarrow> string option" where
  \<comment> \<open>the \<open>for\<close> loop of \<open>find_midi_port\<close>\<close>
  "first_port [] = None"
| "first_port (p # ports) =
     (if py_in (lower MIDI_PORT_HINT) (lower p) then Some p else first_port ports)"

definition find_midi_port :: "world \<Rightarrow> event list \<Rightarrow> (py_error + string) \<times> event list" where
  "find_midi_port w tr =
     (let ports = get_input_names w tr
      in (case first_port ports of
            Some p \<Rightarrow> Inr p
          | None \<Rightarrow>
              Inl (RuntimeError (''Could not find MIDI input containing '' @ [CHR 0x27]
                @ MIDI_PORT_HINT @ [CHR 0x27] @ ''. Ports: '' @ repr_str_list ports)),
          tr @ [Get_input_names]))"

section \<open>The event loop and \<open>main\<close>\<close>

definition set_volume ::
  "world \<Rightarrow> int \<Rightarrow> int \<Rightarrow> event list \<Rightarrow> (py_error + unit) \<times> event list" where
  "set_volume w node_id value_0_127 tr =
     (case pct value_0_127 of
        Inl e \<Rightarrow> (Inl e, tr)
      | Inr p \<Rightarrow>
          (case py_str (int_max_str_digits w) node_id of
             Inl e \<Rightarrow> (Inl e, tr)
           | Inr node \<Rightarrow>
               (case py_str (int_max_str_digits w) p of
                  Inl e \<Rightarrow> (Inl e, tr)
                | Inr percent \<Rightarrow>
                    (case sh w [''wpctl'', ''set-volume'', node, percent @ ''%''] tr of
                       (Inl e, tr') \<Rightarrow> (Inl e, tr')
                     | (Inr out, tr') \<Rightarrow> (Inr (), tr')))))"

definition handle_message ::
  "world \<Rightarrow> (int \<times> int) list \<Rightarrow> midi_msg \<Rightarrow> event list \<Rightarrow> (py_error + unit) \<times> event list" where
  \<comment> \<open>the body of the \<open>for msg in port\<close> loop\<close>
  "handle_message w bus_ids msg tr =
     (case msg of
        Control_change ch cc val \<Rightarrow>
          (case map_of bus_ids cc of
             Some node_id \<Rightarrow> set_volume w node_id val tr
           | None \<Rightarrow> (Inr (), tr))
      | Other_message \<Rightarrow> (Inr (), tr))"

fun event_loop ::
  "world \<Rightarrow> (int \<times> int) list \<Rightarrow> midi_msg list \<Rightarrow> event list \<Rightarrow> (py_error + unit) \<times> event list" where
  \<comment> \<open>the loop over the messages the port yields until it is closed\<close>
  "event_loop w bus_ids [] tr = (Inr (), tr)"
| "event_loop w bus_ids (msg # msgs) tr =
     (case handle_message w bus_ids msg tr of
        (Inl e, tr') \<Rightarrow> (Inl e, tr')
      | (Inr u, tr') \<Rightarrow> event_loop w bus_ids msgs tr')"

fun resolve_buses ::
  "(string \<times> int) list \<Rightarrow> (int \<times> string) list \<Rightarrow> (int \<times> int) list \<Rightarrow> string + (int \<times> int) list" where
  \<comment> \<open>the loop of \<open>main\<close> over \<open>CC_TO_BUS.items()\<close>; \<open>Inl bus\<close> is the name that has no sink\<close>
  "resolve_buses sinks [] bus_ids = Inr bus_ids"
| "resolve_buses sinks ((cc, bus) # items) bus_ids =
     (case map_of sinks bus of
        None \<Rightarrow> Inl bus
      | Some sink_id \<Rightarrow> resolve_buses sinks items (AList.update cc sink_id bus_ids))"

definition missing_sink_message :: "string \<Rightarrow> (string \<times> int) list \<Rightarrow> string" where
  "missing_sink_message bus sinks =
     ''[!] Can'' @ [CHR 0x27] @ ''t find sink named '' @ [CHR 0x27] @ bus @ [CHR 0x27]
       @ '' in wpctl status. Current sinks include: ''
       @ repr_str_list (take 12 (map fst sinks)) @ '' ...''"

fun mapping_dict :: "(int \<times> int) list \<Rightarrow> (int \<times> string) list \<Rightarrow> py_error + (int \<times> string \<times> int) list" where
  \<comment> \<open>\<open>{cc: (CC_TO_BUS[cc], bus_ids[cc]) for cc in CC_TO_BUS}\<close>\<close>
  "mapping_dict bus_ids [] = Inr []"
| "mapping_dict bus_ids ((cc, bus) # items) =
     (case map_of bus_ids cc of
        None \<Rightarrow> Inl KeyError
      | Some i \<Rightarrow>
          (case mapping_dict bus_ids items of
             Inl e \<Rightarrow> Inl e
           | Inr d \<Rightarrow> Inr ((cc, bus, i) # d)))"

fun repr_mapping_items :: "nat \<Rightarrow> (int \<times> string \<times> int) list \<Rightarrow> py_error + string list" where
  "repr_mapping_items maxd [] = Inr []"
| "repr_mapping_items maxd ((cc, bus, i) # d) =
     (case py_str maxd cc of
        Inl e \<Rightarrow> Inl e
      | Inr k \<Rightarrow>
          (case py_str maxd i of
             Inl e \<Rightarrow> Inl e
           | Inr v \<Rightarrow>
               (case repr_mapping_items maxd d of
                  Inl e \<Rightarrow> Inl e
                | Inr rs \<Rightarrow> Inr ((k @ '': ('' @ repr_str bus @ '', '' @ v @ '')'') # rs))))"

definition mapping_message :: "nat \<Rightarrow> (int \<times> int) list \<Rightarrow> py_error + string" where
  "mapping_message maxd bus_ids =
     (case mapping_dict bus_ids CC_TO_BUS of
        Inl e \<Rightarrow> Inl e
      | Inr d \<Rightarrow>
          (case repr_mapping_items maxd d of
             Inl e \<Rightarrow> Inl e
           | Inr rs \<Rightarrow> Inr (''Mapping: {'' @ join '', '' rs @ ''}'')))"

definition main :: "world \<Rightarrow> midi_msg list \<Rightarrow> outcome \<times> event list" where
  \<comment> \<open>\<open>msgs\<close>: the messages the opened port yields before it stops\<close>
  "main w msgs =
     (case get_sink_ids_by_description w [Print ''Scanning PipeWire sinks...''] of
        (Inl e, tr1) \<Rightarrow> (Uncaught e, tr1)
      | (Inr sinks, tr1) \<Rightarrow>
          (case resolve_buses sinks CC_TO_BUS [] of
             Inl bus \<Rightarrow> (Exit 1, tr1 @ [Print (missing_sink_message bus sinks)])
           | Inr bus_ids \<Rightarrow>
               (case find_midi_port w tr1 of
                  (Inl e, tr2) \<Rightarrow> (Uncaught e, tr2)
                | (Inr midi_port, tr2) \<Rightarrow>
                    (case mapping_message (int_max_str_digits w) bus_ids of
                       Inl e \<Rightarrow> (Uncaught e, tr2 @ [Print (''Listening on MIDI: '' @ midi_port)])
                     | Inr mapping \<Rightarrow>
                         (case event_loop w bus_ids msgs
                                 (tr2 @ [Print (''Listening on MIDI: '' @ midi_port), Print mapping,
                                    Print ''Move knobs now... (Ctrl+C to exit)'', Open_input midi_port]) of
                            (Inl e, tr3) \<Rightarrow> (Uncaught e, tr3 @ [Close_input])
                          | (Inr u, tr3) \<Rightarrow> (Returned, tr3 @ [Close_input]))))))"

section \<open>An example environment\<close>

text \<open>
  A world whose status command prints \<open>txt\<close>, whose other commands succeed silently, and
  whose MIDI backend lists \<open>ports\<close>, under CPython's default digit limit.
\<close>

definition example_world :: "string \<Rightarrow> string list \<Rightarrow> world" where
  "example_world txt ports =
     \<lparr>int_max_str_digits = 4300,
      check_output = (\<lambda>h cmd. if cmd = [''wpctl'', ''status''] then Inr txt else Inr []),
      get_input_names = (\<lambda>h. ports)\<rparr>"

definition example_status :: string where
  "example_status =
     ''Sinks:'' @ [CHR 0x0A] @ ''   97. VM-GAME [vol: 1.00]'' @ [CHR 0x0A]
       @ ''*  103. Astro A50 Game [vol: 1.00]'' @ [CHR 0x0A]
       @ ''Sources:'' @ [CHR 0x0A] @ ''   55. Mic [vol: 1.00]'' @ [CHR 0x0A]"

definition example_no_sinks :: string where
  "example_no_sinks =
     ''Audio'' @ [CHR 0x0A] @ ''Sources:'' @ [CHR 0x0A] @ ''   55. Mic [vol: 1.00]'' @ [CHR 0x0A]
       @ ''Filters:'' @ [CHR 0x0A]"

definition example_buses_status :: string where
  "example_buses_status =
     ''Sinks:'' @ [CHR 0x0A] @ ''   97. VM-GAME [vol: 1.00]'' @ [CHR 0x0A]
       @ ''   98. VM-CHAT [vol: 0.80]'' @ [CHR 0x0A]
       @ ''*  99. VM-MUSIC [vol: 0.50]'' @ [CHR 0x0A]
       @ ''Sources:'' @ [CHR 0x0A]"

section \<open>Properties of the float operations\<close>

lemma ilog2_le:
  assumes "0 < x"
  shows "2 powi (ilog2 x) \<le> x"
proof -
  obtain p q where pq: "quotient_of x = (p, q)" by (cases "quotient_of x")
  have q: "0 < q" using pq by (rule quotient_of_denom_pos)
  have x: "x = of_int p / of_int q" using pq by (rule quotient_of_div)
  have p: "0 < p" using assms q x by (simp add: zero_less_divide_iff)
  define k where "k = bitlen p - bitlen q"
  have bp: "1 \<le> bitlen p" using p by (simp add: bitlen_alt_def)
  have bq: "1 \<le> bitlen q" using q by (simp add: bitlen_alt_def)
  have "(2::int) ^ nat (bitlen p - 1) \<le> p" using bitlen_bounds[OF p] by simp
  then have "(of_int ((2::int) ^ nat (bitlen p - 1)) :: rat) \<le> of_int p"
    by (simp only: of_int_le_iff)
  then have lo: "(2::rat) powi (bitlen p - 1) \<le> of_int p"
    using bp by (simp add: power_int_def)
  have "q < (2::int) ^ nat (bitlen q)" using bitlen_bounds[OF q] by simp
  then have "(of_int q :: rat) < of_int ((2::int) ^ nat (bitlen q))"
    by (simp only: of_int_less_iff)
  then have hi: "(of_int q :: rat) < 2 powi (bitlen q)"
    using bq by (simp add: power_int_def)
  have k1: "k - 1 = (bitlen p - 1) - bitlen q" by (simp add: k_def)
  have "(2::rat) powi ((bitlen p - 1) - bitlen q) = 2 powi (bitlen p - 1) / 2 powi (bitlen q)"
    by (rule power_int_diff) simp
  then have "(2::rat) powi (k - 1) = 2 powi (bitlen p - 1) / 2 powi (bitlen q)"
    by (simp only: k1)
  also have "\<dots> \<le> of_int p / 2 powi (bitlen q)"
    using lo by (simp add: divide_right_mono)
  also have "\<dots> \<le> of_int p / of_int q"
    using hi p q by (simp add: frac_le)
  finally have "(2::rat) powi (k - 1) \<le> x" using x by simp
  then show ?thesis
    unfolding ilog2_def pq k_def by (simp add: Let_def)
qed

lemma ilog2_less:
  assumes "0 < x"
  shows "x < 2 powi (ilog2 x + 1)"
proof -
  obtain p q where pq: "quotient_of x = (p, q)" by (cases "quotient_of x")
  have q: "0 < q" using pq by (rule quotient_of_denom_pos)
  have x: "x = of_int p / of_int q" using pq by (rule quotient_of_div)
  have p: "0 < p" using assms q x by (simp add: zero_less_divide_iff)
  define k where "k = bitlen p - bitlen q"
  have bp: "1 \<le> bitlen p" using p by (simp add: bitlen_alt_def)
  have bq: "1 \<le> bitlen q" using q by (simp add: bitlen_alt_def)
  have "p < (2::int) ^ nat (bitlen p)" using bitlen_bounds[OF p] by simp
  then have "(of_int p :: rat) < of_int ((2::int) ^ nat (bitlen p))"
    by (simp only: of_int_less_iff)
  then have hi: "(of_int p :: rat) < 2 powi (bitlen p)"
    using bp by (simp add: power_int_def)
  have "(2::int) ^ nat (bitlen q - 1) \<le> q" using bitlen_bounds[OF q] by simp
  then have "(of_int ((2::int) ^ nat (bitlen q - 1)) :: rat) \<le> of_int q"
    by (simp only: of_int_le_iff)
  then have lo: "(2::rat) powi (bitlen q - 1) \<le> of_int q"
    using bq by (simp add: power_int_def)
  have k1: "k + 1 = bitlen p - (bitlen q - 1)" by (simp add: k_def)
  have "x < 2 powi (bitlen p) / of_int q"
    unfolding x using hi q by (simp add: divide_strict_right_mono)
  also have "\<dots> \<le> 2 powi (bitlen p) / 2 powi (bitlen q - 1)"
    using lo q by (intro divide_left_mono) (simp_all add: zero_less_mult_iff)
  also have "\<dots> = 2 powi (bitlen p - (bitlen q - 1))"
    by (rule power_int_diff[symmetric]) simp
  finally have up: "x < 2 powi (k + 1)" by (simp only: k1)
  show ?thesis
  proof (cases "2 powi k \<le> x")
    case True
    then have "ilog2 x = k" unfolding ilog2_def pq k_def by (simp add: Let_def)
    with up show ?thesis by simp
  next
    case False
    then have "ilog2 x = k - 1" unfolding ilog2_def pq k_def by (simp add: Let_def)
    with False show ?thesis by simp
  qed
qed

lemma ilog2_upper:
  assumes "0 < x" and "x < 2 powi n"
  shows "ilog2 x < n"
proof (rule ccontr)
  assume "\<not> ilog2 x < n"
  then have "n \<le> ilog2 x" by simp
  then have "(2::rat) powi n \<le> 2 powi (ilog2 x)"
    by (simp add: power_int_increasing)
  with ilog2_le[OF assms(1)] assms(2) show False by simp
qed

lemma round_half_even_err: "\<bar>of_int (round_half_even y) - y\<bar> \<le> 1 / 2"
proof -
  have "of_int \<lfloor>y\<rfloor> \<le> y" "y < of_int \<lfloor>y\<rfloor> + 1" by linarith+
  then show ?thesis
    unfolding round_half_even_def Let_def by (auto simp: abs_le_iff)
qed

lemma round_half_even_nonneg: "0 \<le> y \<Longrightarrow> 0 \<le> round_half_even y"
  unfolding round_half_even_def Let_def by auto

lemma rne64_nonneg:
  assumes "0 \<le> x"
  shows "0 \<le> rne64 x"
  using assms unfolding rne64_def Let_def
  by (simp add: round_half_even_nonneg)

lemma rne64_err:
  assumes "0 \<le> x" and "x < 2 powi n" and "- 1022 < n"
  shows "\<bar>rne64 x - x\<bar> \<le> 2 powi (n - 54)"
proof (cases "x = 0")
  case True
  then show ?thesis by (simp add: rne64_def)
next
  case False
  with assms have pos: "0 < x" by simp
  define e where "e = max (ilog2 \<bar>x\<bar> - 52) (- 1074)"
  have "ilog2 x < n" using pos assms(2) by (rule ilog2_upper)
  then have e: "e \<le> n - 53" using assms(3) pos by (simp add: e_def)
  have p2: "(0::rat) < 2 powi e" by simp
  have r: "rne64 x = of_int (round_half_even (x / 2 powi e)) * 2 powi e"
    using False by (simp add: rne64_def e_def Let_def)
  have "rne64 x - x = (of_int (round_half_even (x / 2 powi e)) - x / 2 powi e) * 2 powi e"
    unfolding r using p2 by (simp add: left_diff_distrib)
  then have "\<bar>rne64 x - x\<bar> = \<bar>of_int (round_half_even (x / 2 powi e)) - x / 2 powi e\<bar> * 2 powi e"
    using p2 by (simp add: abs_mult)
  also have "\<dots> \<le> 1 / 2 * 2 powi e"
    by (rule mult_right_mono[OF round_half_even_err]) simp
  also have "\<dots> = 2 powi (e - 1)"
    by (simp add: power_int_diff)
  also have "\<dots> \<le> 2 powi (n - 54)"
    using e by (simp add: power_int_increasing)
  finally show ?thesis .
qed

lemma round_half_even_stable:
  assumes "\<bar>y - x\<bar> \<le> d" and "of_int n - 1 / 2 + d < x" and "x < of_int n + 1 / 2 - d"
  shows "round_half_even y = n"
proof -
  have lo: "of_int n - 1 / 2 < y" and hi: "y < of_int n + 1 / 2"
    using assms by (auto simp: abs_le_iff)
  have "of_int (n - 1) \<le> y" using lo by simp
  then have a: "n - 1 \<le> \<lfloor>y\<rfloor>" by (simp only: le_floor_iff)
  have "y < of_int (n + 1)" using hi by simp
  then have b: "\<lfloor>y\<rfloor> < n + 1" by (simp only: floor_less_iff)
  have "\<lfloor>y\<rfloor> = n \<or> \<lfloor>y\<rfloor> = n - 1"
    using a b by linarith
  then show ?thesis
    using lo hi unfolding round_half_even_def Let_def by auto
qed

section \<open>The percentage of the volume setter\<close>

lemma rne64_err_small: "(2::rat) powi (7 - 54) \<le> 1 / 10000000" "(2::rat) powi (1 - 54) \<le> 1 / 10000000"
  "(2::rat) powi (8 - 54) \<le> 1 / 10000000"
  by (simp_all add: power_int_minus divide_simps)

lemma pct_steps:
  assumes "0 \<le> v" and "v \<le> 127"
  shows "\<exists>y. pct v = Inr (round_half_even y) \<and> \<bar>y - of_int v / 127 * 100\<bar> \<le> 1 / 1000"
proof -
  define y0 where "y0 = rne64 (of_int v)"
  define y1 where "y1 = rne64 (y0 / 127)"
  define y2 where "y2 = rne64 (y1 * 100)"
  have v: "(0::rat) \<le> of_int v" "(of_int v :: rat) \<le> 127" using assms by simp_all
  have "\<bar>y0 - of_int v\<bar> \<le> 2 powi (7 - 54)"
    unfolding y0_def using v by (intro rne64_err) simp_all
  then have e0: "\<bar>y0 - of_int v\<bar> \<le> 1 / 10000000" using rne64_err_small(1) by (rule order_trans)
  have n0: "0 \<le> y0" unfolding y0_def using v by (intro rne64_nonneg)
  have u0: "y0 < 128" using e0 v by linarith
  have "\<bar>y1 - y0 / 127\<bar> \<le> 2 powi (1 - 54)"
    unfolding y1_def using n0 u0 by (intro rne64_err) simp_all
  then have e1: "\<bar>y1 - y0 / 127\<bar> \<le> 1 / 10000000" using rne64_err_small(2) by (rule order_trans)
  have n1: "0 \<le> y1" unfolding y1_def using n0 by (intro rne64_nonneg) simp
  have u1: "y1 < 2" using e1 u0 by linarith
  have "\<bar>y2 - y1 * 100\<bar> \<le> 2 powi (8 - 54)"
    unfolding y2_def using n1 u1 by (intro rne64_err) simp_all
  then have e2: "\<bar>y2 - y1 * 100\<bar> \<le> 1 / 10000000" using rne64_err_small(3) by (rule order_trans)
  have n2: "0 \<le> y2" unfolding y2_def using n1 by (intro rne64_nonneg) simp
  have u2: "y2 < 201" using e2 u1 by linarith
  have big: "(201::rat) \<le> 2 ^ 1024" by simp
  have f0: "float_of_int v = Inr (Finite y0)"
    using u0 n0 big by (simp add: float_of_int_def to_float_def y0_def[symmetric] Let_def)
  have f1: "to_float (y0 / 127) = Finite y1"
    using u1 n1 big by (simp add: to_float_def y1_def[symmetric] Let_def)
  have f2: "to_float (y1 * 100) = Finite y2"
    using u2 n2 big by (simp add: to_float_def y2_def[symmetric] Let_def)
  have "pct v = Inr (round_half_even y2)"
    by (simp add: pct_def f0 f1 f2)
  moreover have "\<bar>y2 - of_int v / 127 * 100\<bar> \<le> 1 / 1000"
    using e0 e1 e2 by linarith
  ultimately show ?thesis by blast
qed


lemma pct_value:
  assumes "0 \<le> v" and "v \<le> 127"
  shows "pct v = Inr ((200 * v + 127) div 254)"
proof -
  define n where "n = (200 * v + 127) div 254"
  define r where "r = (200 * v + 127) mod 254"
  obtain y where y: "pct v = Inr (round_half_even y)"
    and err: "\<bar>y - of_int v / 127 * 100\<bar> \<le> 1 / 1000"
    using pct_steps[OF assms] by blast
  have eq: "200 * v + 127 = 254 * n + r"
    unfolding n_def r_def by simp
  have r: "0 \<le> r" "r < 254" unfolding r_def by simp_all
  have "odd (200 * v + 127)" by simp
  then have "odd r" unfolding eq by simp
  then have "r \<noteq> 0" by (rule contrapos_nn) simp
  with r have i: "254 * n + 1 \<le> 200 * v + 127" "200 * v + 127 \<le> 254 * n + 253"
    unfolding eq by linarith+
  have "(of_int (254 * n + 1) :: rat) \<le> of_int (200 * v + 127)"
    using i(1) by (simp only: of_int_le_iff)
  then have r1: "254 * (of_int n :: rat) + 1 \<le> 200 * of_int v + 127" by simp
  have "(of_int (200 * v + 127) :: rat) \<le> of_int (254 * n + 253)"
    using i(2) by (simp only: of_int_le_iff)
  then have r2: "200 * (of_int v :: rat) + 127 \<le> 254 * of_int n + 253" by simp
  have "round_half_even y = n"
  proof (rule round_half_even_stable[OF err])
    show "of_int n - 1 / 2 + 1 / 1000 < (of_int v :: rat) / 127 * 100"
      using r1 by simp
    show "(of_int v :: rat) / 127 * 100 < of_int n + 1 / 2 - 1 / 1000"
      using r2 by simp
  qed
  then show ?thesis using y by (simp add: n_def)
qed

lemma round_half_even_pct:
  assumes "0 \<le> v" and "v \<le> 127"
  shows "round_half_even (of_int v / 127 * 100) = (200 * v + 127) div 254"
proof -
  define n where "n = (200 * v + 127) div 254"
  define r where "r = (200 * v + 127) mod 254"
  have eq: "200 * v + 127 = 254 * n + r"
    unfolding n_def r_def by simp
  have r: "0 \<le> r" "r < 254" unfolding r_def by simp_all
  have "odd (200 * v + 127)" by simp
  then have "odd r" unfolding eq by simp
  then have "r \<noteq> 0" by (rule contrapos_nn) simp
  with r have i: "254 * n + 1 \<le> 200 * v + 127" "200 * v + 127 \<le> 254 * n + 253"
    unfolding eq by linarith+
  have "(of_int (254 * n + 1) :: rat) \<le> of_int (200 * v + 127)"
    using i(1) by (simp only: of_int_le_iff)
  then have r1: "254 * (of_int n :: rat) + 1 \<le> 200 * of_int v + 127" by simp
  have "(of_int (200 * v + 127) :: rat) \<le> of_int (254 * n + 253)"
    using i(2) by (simp only: of_int_le_iff)
  then have r2: "200 * (of_int v :: rat) + 127 \<le> 254 * of_int n + 253" by simp
  have "round_half_even (of_int v / 127 * 100) = n"
  proof (rule round_half_even_stable[where d = "1 / 1000"])
    show "\<bar>(of_int v :: rat) / 127 * 100 - of_int v / 127 * 100\<bar> \<le> 1 / 1000" by simp
    show "of_int n - 1 / 2 + 1 / 1000 < (of_int v :: rat) / 127 * 100"
      using r1 by simp
    show "(of_int v :: rat) / 127 * 100 < of_int n + 1 / 2 - 1 / 1000"
      using r2 by simp
  qed
  then show ?thesis by (simp add: n_def)
qed

text \<open>
  C1. For every value \<open>v\<close> from 0 to 127 the percentage that \<open>set_volume\<close> computes is
  \<open>round(v / 127 * 100)\<close> taken in exact arithmetic: the float operations of the script
  return the integer nearest to \<open>100 * v / 127\<close> (no tie occurs, so every rounding rule
  gives this integer), it lies between 0 and 100, and the values 0, 64 and 127 give 0, 50
  and 100.
\<close>

theorem pct_is_rounded_percentage:
  "(0 \<le> v \<and> v \<le> 127 \<longrightarrow>
      (\<exists>p. pct v = Inr p \<and> p = round_half_even (of_int v / 127 * 100)
         \<and> \<bar>of_int p - (of_int v / 127 * 100 :: rat)\<bar> < 1 / 2 \<and> 0 \<le> p \<and> p \<le> 100))
   \<and> pct 0 = Inr 0 \<and> pct 64 = Inr 50 \<and> pct 127 = Inr 100"
proof -
  have gen: "\<exists>p. pct v = Inr p \<and> p = round_half_even (of_int v / 127 * 100)
         \<and> \<bar>of_int p - (of_int v / 127 * 100 :: rat)\<bar> < 1 / 2 \<and> 0 \<le> p \<and> p \<le> 100"
    if v: "0 \<le> v" "v \<le> 127"
  proof -
    define p where "p = (200 * v + 127) div 254"
    define r where "r = (200 * v + 127) mod 254"
    have eq: "200 * v + 127 = 254 * p + r"
      unfolding p_def r_def by simp
    have r: "0 \<le> r" "r < 254" unfolding r_def by simp_all
    have "odd (200 * v + 127)" by simp
    then have "odd r" unfolding eq by simp
    then have "r \<noteq> 0" by (rule contrapos_nn) simp
    with r have i: "254 * p + 1 \<le> 200 * v + 127" "200 * v + 127 \<le> 254 * p + 253"
      unfolding eq by linarith+
    have "(of_int (254 * p + 1) :: rat) \<le> of_int (200 * v + 127)"
      using i(1) by (simp only: of_int_le_iff)
    then have r1: "254 * (of_int p :: rat) + 1 \<le> 200 * of_int v + 127" by simp
    have "(of_int (200 * v + 127) :: rat) \<le> of_int (254 * p + 253)"
      using i(2) by (simp only: of_int_le_iff)
    then have r2: "200 * (of_int v :: rat) + 127 \<le> 254 * of_int p + 253" by simp
    define x :: rat where "x = of_int v / 127 * 100"
    have "254 * x = 200 * of_int v" unfolding x_def by simp
    with r1 r2 have "\<bar>of_int p - x\<bar> < 1 / 2" by linarith
    then have near: "\<bar>of_int p - (of_int v / 127 * 100 :: rat)\<bar> < 1 / 2"
      unfolding x_def .
    have range: "0 \<le> p" "p \<le> 100" using i v by linarith+
    have "pct v = Inr p" unfolding p_def using v by (rule pct_value)
    moreover have "p = round_half_even (of_int v / 127 * 100)"
      unfolding p_def using v by (rule round_half_even_pct[symmetric])
    ultimately show ?thesis using near range by blast
  qed
  have "pct 0 = Inr 0" "pct 64 = Inr 50" "pct 127 = Inr 100"
    by (simp_all add: pct_value)
  with gen show ?thesis by blast
qed

theorem pct_is_rounded_percentage_witness:
  "0 \<le> (100::int) \<and> (100::int) \<le> 127 \<and> pct 100 = Inr 79
   \<and> round_half_even (of_int 100 / 127 * 100) = 79"
proof -
  have r: "round_half_even (of_int 100 / 127 * 100) = 79" by code_simp
  from pct_is_rounded_percentage [of 100] show ?thesis
    unfolding r by simp
qed

text \<open>
  C10. The percentage is monotone in the value: for values \<open>v1 \<le> v2\<close> from 0 to 127, the
  percentage computed for \<open>v1\<close> is at most the one computed for \<open>v2\<close>.
\<close>

theorem pct_monotone:
  assumes "0 \<le> v1" and "v1 \<le> v2" and "v2 \<le> 127"
  shows "\<exists>p1 p2. pct v1 = Inr p1 \<and> pct v2 = Inr p2 \<and> p1 \<le> p2"
proof -
  have "pct v1 = Inr ((200 * v1 + 127) div 254)"
    using assms by (intro pct_value) simp_all
  moreover have "pct v2 = Inr ((200 * v2 + 127) div 254)"
    using assms by (intro pct_value) simp_all
  moreover have "(200 * v1 + 127) div 254 \<le> (200 * v2 + 127) div 254"
    using assms by (intro zdiv_mono1) simp_all
  ultimately show ?thesis by blast
qed

theorem pct_monotone_witness:
  "(0::int) \<le> 63 \<and> (63::int) \<le> 64 \<and> (64::int) \<le> 127
   \<and> pct 63 = Inr 50 \<and> pct 64 = Inr 50 \<and> (\<exists>p1 p2. pct 63 = Inr p1 \<and> pct 64 = Inr p2 \<and> p1 \<le> p2)"
  using pct_monotone [of 63 64] by (simp add: pct_value)

section \<open>The port locator: first case-insensitive match\<close>

lemma py_in_sublist: "py_in x s \<longleftrightarrow> sublist x s"
  by (induction s) (auto simp: sublist_Cons_right)

lemma sublist_context: "sublist x y \<Longrightarrow> sublist x (a @ y @ b)"
  by (rule sublist_order.order.trans[OF _ sublist_appendI])

lemma lower_sublist:
  "sublist (lower h) (lower p) \<longleftrightarrow> (\<exists>s. sublist s p \<and> lower s = lower h)"
proof
  assume "sublist (lower h) (lower p)"
  then obtain a b where "map lower_char p = a @ (map lower_char h @ b)"
    unfolding sublist_def lower_def by blast
  then have "\<exists>a' r. p = a' @ r \<and> a = map lower_char a' \<and> map lower_char h @ b = map lower_char r"
    by (simp only: map_eq_append_conv)
  then obtain a' r where p: "p = a' @ r" and "map lower_char r = map lower_char h @ b"
    by auto
  then have "\<exists>s b'. r = s @ b' \<and> map lower_char h = map lower_char s \<and> b = map lower_char b'"
    by (simp only: map_eq_append_conv)
  then obtain s b' where r: "r = s @ b'" and s: "map lower_char s = map lower_char h"
    by auto
  have "sublist s p" unfolding p r sublist_def by blast
  with s show "\<exists>s. sublist s p \<and> lower s = lower h" unfolding lower_def by blast
next
  assume "\<exists>s. sublist s p \<and> lower s = lower h"
  then obtain s where "sublist s p" and s: "lower s = lower h" by blast
  then obtain a b where "p = a @ s @ b" unfolding sublist_def by blast
  then have "lower p = lower a @ lower h @ lower b"
    using s by (simp add: lower_def)
  then show "sublist (lower h) (lower p)" unfolding sublist_def by blast
qed

lemma first_port_find:
  "first_port ports = find (\<lambda>p. \<exists>s. sublist s p \<and> lower s = lower MIDI_PORT_HINT) ports"
proof (induction ports)
  case Nil
  show ?case by simp
next
  case (Cons p ports)
  have m: "py_in (lower MIDI_PORT_HINT) (lower p)
      \<longleftrightarrow> (\<exists>s. sublist s p \<and> lower s = lower MIDI_PORT_HINT)"
    by (simp add: py_in_sublist lower_sublist)
  show ?case
  proof (cases "\<exists>s. sublist s p \<and> lower s = lower MIDI_PORT_HINT")
    case True
    then have "find (\<lambda>p. \<exists>s. sublist s p \<and> lower s = lower MIDI_PORT_HINT) (p # ports) = Some p"
      by (simp only: find.simps if_True)
    moreover have "first_port (p # ports) = Some p"
      using True m by (simp only: first_port.simps if_True)
    ultimately show ?thesis by simp
  next
    case False
    then have "find (\<lambda>p. \<exists>s. sublist s p \<and> lower s = lower MIDI_PORT_HINT) (p # ports)
        = find (\<lambda>p. \<exists>s. sublist s p \<and> lower s = lower MIDI_PORT_HINT) ports"
      by (simp only: find.simps if_False)
    moreover have "first_port (p # ports) = first_port ports"
      using False m by (simp only: first_port.simps if_False)
    ultimately show ?thesis using Cons by simp
  qed
qed

lemma sublist_join:
  "x \<in> set xs \<Longrightarrow> sublist x (join sep xs)"
proof (induction sep xs rule: join.induct)
  case (1 sep)
  then show ?case by simp
next
  case (2 sep y)
  then show ?case by simp
next
  case (3 sep y z zs)
  show ?case
  proof (cases "x = y")
    case True
    then show ?thesis by simp
  next
    case False
    with 3 have "sublist x (join sep (z # zs))" by simp
    then have "sublist x ((y @ sep) @ join sep (z # zs) @ [])"
      by (rule sublist_context)
    then show ?thesis by simp
  qed
qed

lemma sublist_repr_str_list:
  assumes "p \<in> set ports"
  shows "sublist (repr_str p) (repr_str_list ports)"
proof -
  have "sublist (repr_str p) (join '', '' (map repr_str ports))"
    using assms by (intro sublist_join) simp
  then show ?thesis
    unfolding repr_str_list_def by (rule sublist_context)
qed


lemma find_first:
  "\<forall>q \<in> set pre. \<not> P q \<Longrightarrow> P p \<Longrightarrow> find P (pre @ p # post) = Some p"
  by (induction pre) simp_all

lemma find_none: "\<forall>q \<in> set xs. \<not> P q \<Longrightarrow> find P xs = None"
  by (induction xs) simp_all

text \<open>
  C3. The port locator is a case-insensitive substring match of the hint against each
  input port name. When the list of ports is \<open>pre @ p # post\<close>, \<open>p\<close> has a substring that
  equals the hint up to case and no port of \<open>pre\<close> has one, the result is \<open>p\<close>: the first
  match in enumeration order. When no port has one, the result is a RuntimeError whose
  message holds the \<open>repr\<close> of every available port name.
\<close>

theorem find_midi_port_first_match:
  "(\<forall>pre p post.
       get_input_names w tr = pre @ p # post
       \<and> (\<exists>s. sublist s p \<and> lower s = lower MIDI_PORT_HINT)
       \<and> (\<forall>q \<in> set pre. \<not> (\<exists>s. sublist s q \<and> lower s = lower MIDI_PORT_HINT))
     \<longrightarrow> fst (find_midi_port w tr) = Inr p)
   \<and> ((\<forall>q \<in> set (get_input_names w tr). \<not> (\<exists>s. sublist s q \<and> lower s = lower MIDI_PORT_HINT))
     \<longrightarrow> (\<exists>m. fst (find_midi_port w tr) = Inl (RuntimeError m)
            \<and> (\<forall>q \<in> set (get_input_names w tr). sublist (repr_str q) m)))"
proof (intro conjI allI impI)
  fix pre p post
  assume a: "get_input_names w tr = pre @ p # post
       \<and> (\<exists>s. sublist s p \<and> lower s = lower MIDI_PORT_HINT)
       \<and> (\<forall>q \<in> set pre. \<not> (\<exists>s. sublist s q \<and> lower s = lower MIDI_PORT_HINT))"
  then have g: "get_input_names w tr = pre @ p # post"
    and P: "\<exists>s. sublist s p \<and> lower s = lower MIDI_PORT_HINT"
    and N: "\<forall>q \<in> set pre. \<not> (\<exists>s. sublist s q \<and> lower s = lower MIDI_PORT_HINT)"
    by blast+
  have "find (\<lambda>p. \<exists>s. sublist s p \<and> lower s = lower MIDI_PORT_HINT) (pre @ p # post) = Some p"
    using N P by (rule find_first)
  then have "first_port (get_input_names w tr) = Some p"
    unfolding first_port_find g .
  then show "fst (find_midi_port w tr) = Inr p"
    by (simp add: find_midi_port_def)
next
  let ?ports = "get_input_names w tr"
  let ?m = "''Could not find MIDI input containing '' @ [CHR 0x27] @ MIDI_PORT_HINT @ [CHR 0x27]
      @ ''. Ports: '' @ repr_str_list ?ports"
  assume "\<forall>q \<in> set ?ports. \<not> (\<exists>s. sublist s q \<and> lower s = lower MIDI_PORT_HINT)"
  then have "first_port ?ports = None"
    unfolding first_port_find by (rule find_none)
  then have r: "fst (find_midi_port w tr) = Inl (RuntimeError ?m)"
    by (simp add: find_midi_port_def)
  have "sublist (repr_str q) ?m" if "q \<in> set ?ports" for q
  proof -
    have "sublist (repr_str q) (repr_str_list ?ports)"
      using that by (rule sublist_repr_str_list)
    then have "sublist (repr_str q)
        ((''Could not find MIDI input containing '' @ [CHR 0x27] @ MIDI_PORT_HINT @ [CHR 0x27]
          @ ''. Ports: '') @ repr_str_list ?ports @ [])"
      by (rule sublist_context)
    then show ?thesis by simp
  qed
  with r show "\<exists>m. fst (find_midi_port w tr) = Inl (RuntimeError m)
            \<and> (\<forall>q \<in> set ?ports. sublist (repr_str q) m)"
    by blast
qed

theorem find_midi_port_first_match_witness:
  "fst (find_midi_port (example_world [] [''Midi Through'', ''my lpd8 midi 1'', ''LPD8 MIDI 1'']) [])
     = Inr ''my lpd8 midi 1''
   \<and> (\<exists>m. fst (find_midi_port (example_world [] [''Midi Through'', ''nanoKONTROL'']) [])
          = Inl (RuntimeError m)
        \<and> sublist (repr_str ''Midi Through'') m \<and> sublist (repr_str ''nanoKONTROL'') m)"
proof -
  have "\<not> py_in (lower MIDI_PORT_HINT) (lower ''Midi Through'')" by code_simp
  then have no1: "\<not> (\<exists>s. sublist s ''Midi Through'' \<and> lower s = lower MIDI_PORT_HINT)"
    by (simp add: py_in_sublist lower_sublist)
  have "\<not> py_in (lower MIDI_PORT_HINT) (lower ''nanoKONTROL'')" by code_simp
  then have no2: "\<not> (\<exists>s. sublist s ''nanoKONTROL'' \<and> lower s = lower MIDI_PORT_HINT)"
    by (simp add: py_in_sublist lower_sublist)
  have "py_in (lower MIDI_PORT_HINT) (lower ''my lpd8 midi 1'')" by code_simp
  then have yes: "\<exists>s. sublist s ''my lpd8 midi 1'' \<and> lower s = lower MIDI_PORT_HINT"
    by (simp add: py_in_sublist lower_sublist)
  let ?w1 = "example_world [] [''Midi Through'', ''my lpd8 midi 1'', ''LPD8 MIDI 1'']"
  let ?w2 = "example_world [] [''Midi Through'', ''nanoKONTROL'']"
  have p1: "get_input_names ?w1 [] = [''Midi Through''] @ ''my lpd8 midi 1'' # [''LPD8 MIDI 1'']"
    by (simp add: example_world_def)
  have p2: "get_input_names ?w2 [] = [''Midi Through'', ''nanoKONTROL'']"
    by (simp add: example_world_def)
  from find_midi_port_first_match [of ?w1 "[]"]
  have "get_input_names ?w1 [] = [''Midi Through''] @ ''my lpd8 midi 1'' # [''LPD8 MIDI 1'']
       \<and> (\<exists>s. sublist s ''my lpd8 midi 1'' \<and> lower s = lower MIDI_PORT_HINT)
       \<and> (\<forall>q \<in> set [''Midi Through'']. \<not> (\<exists>s. sublist s q \<and> lower s = lower MIDI_PORT_HINT))
     \<longrightarrow> fst (find_midi_port ?w1 []) = Inr ''my lpd8 midi 1''"
    by blast
  moreover have "\<forall>q \<in> set [''Midi Through'']. \<not> (\<exists>s. sublist s q \<and> lower s = lower MIDI_PORT_HINT)"
    using no1 by simp
  ultimately have a: "fst (find_midi_port ?w1 []) = Inr ''my lpd8 midi 1''"
    using p1 yes by blast
  have "\<forall>q \<in> set (get_input_names ?w2 []). \<not> (\<exists>s. sublist s q \<and> lower s = lower MIDI_PORT_HINT)"
    unfolding p2 using no1 no2 by simp
  with find_midi_port_first_match [of ?w2 "[]"]
  have "\<exists>m. fst (find_midi_port ?w2 []) = Inl (RuntimeError m)
            \<and> (\<forall>q \<in> set (get_input_names ?w2 []). sublist (repr_str q) m)"
    by blast
  then have b: "\<exists>m. fst (find_midi_port ?w2 []) = Inl (RuntimeError m)
        \<and> sublist (repr_str ''Midi Through'') m \<and> sublist (repr_str ''nanoKONTROL'') m"
    unfolding p2 by auto
  from a b show ?thesis by blast
qed

section \<open>The event loop\<close>

lemma digits10_97: "digits10 97 = ''97''" by code_simp
lemma digits10_79: "digits10 79 = ''79''" by code_simp

lemma py_str_97: "py_str maxd 97 = Inr ''97''"
  by (simp add: py_str_def too_many_digits_def digits10_97)

lemma py_str_79: "py_str maxd 79 = Inr ''79''"
  by (simp add: py_str_def too_many_digits_def digits10_79)

lemma pct_100: "pct 100 = Inr 79"
  by (simp add: pct_value)

lemma handle_message_ignored:
  assumes "msg = Other_message \<or> (\<exists>ch cc val. msg = Control_change ch cc val \<and> cc \<notin> fst ` set bus_ids)"
  shows "handle_message w bus_ids msg tr = (Inr (), tr)"
proof (cases msg)
  case (Control_change ch cc val)
  with assms have "cc \<notin> fst ` set bus_ids" by simp
  then have "map_of bus_ids cc = None" by (simp add: map_of_eq_None_iff)
  with Control_change show ?thesis by (simp add: handle_message_def)
next
  case Other_message
  then show ?thesis by (simp add: handle_message_def)
qed

lemma event_loop_skip:
  assumes "\<And>tr. handle_message w bus_ids msg tr = (Inr (), tr)"
  shows "event_loop w bus_ids (before @ msg # after) tr = event_loop w bus_ids (before @ after) tr"
proof (induction before arbitrary: tr)
  case Nil
  show ?case by (simp add: assms)
next
  case (Cons m before)
  show ?case
  proof (cases "handle_message w bus_ids m tr")
    case (Pair r tr')
    then show ?thesis using Cons by (cases r) simp_all
  qed
qed

lemma resolve_buses_keys:
  "resolve_buses sinks items acc = Inr ids \<Longrightarrow> fst ` set ids = fst ` set acc \<union> fst ` set items"
proof (induction sinks items acc rule: resolve_buses.induct)
  case (1 sinks bus_ids)
  then show ?case by simp
next
  case (2 sinks cc bus items bus_ids)
  then show ?case
    by (auto simp: AList.dom_update split: option.splits)
qed

text \<open>
  C6. A received message that is not a control change, or whose controller number is not
  a key of the bus identifier table, issues no external command: handling it leaves the
  trace as it is, and the event loop runs as if the message had not been in the stream.
  Controller 5 is no key of any table resolved from the default mapping of 1, 2 and 3.
\<close>

theorem ignored_message_issues_no_command:
  "(msg = Other_message \<or> (\<exists>ch cc val. msg = Control_change ch cc val \<and> cc \<notin> fst ` set bus_ids)
      \<longrightarrow> handle_message w bus_ids msg tr = (Inr (), tr)
        \<and> event_loop w bus_ids (before @ msg # after) tr = event_loop w bus_ids (before @ after) tr)
   \<and> (resolve_buses sinks CC_TO_BUS [] = Inr ids
      \<longrightarrow> handle_message w ids (Control_change ch5 5 val5) tr = (Inr (), tr))"
proof (intro conjI impI)
  assume a: "msg = Other_message \<or> (\<exists>ch cc val. msg = Control_change ch cc val \<and> cc \<notin> fst ` set bus_ids)"
  then show "handle_message w bus_ids msg tr = (Inr (), tr)"
    by (rule handle_message_ignored)
  show "event_loop w bus_ids (before @ msg # after) tr = event_loop w bus_ids (before @ after) tr"
    by (rule event_loop_skip) (rule handle_message_ignored[OF a])
next
  assume "resolve_buses sinks CC_TO_BUS [] = Inr ids"
  then have "fst ` set ids = fst ` set CC_TO_BUS" by (simp add: resolve_buses_keys)
  then have "5 \<notin> fst ` set ids" by (simp add: CC_TO_BUS_def)
  then show "handle_message w ids (Control_change ch5 5 val5) tr = (Inr (), tr)"
    by (intro handle_message_ignored) blast
qed

theorem ignored_message_issues_no_command_witness:
  "handle_message (example_world [] []) [(1, 97), (2, 98), (3, 99)] (Control_change 0 5 10) [] = (Inr (), [])
   \<and> event_loop (example_world [] []) [(1, 97), (2, 98), (3, 99)]
        ([Control_change 0 1 100] @ Control_change 0 5 10 # [Other_message]) []
      = event_loop (example_world [] []) [(1, 97), (2, 98), (3, 99)]
        ([Control_change 0 1 100] @ [Other_message]) []
   \<and> resolve_buses [(''VM-GAME'', 97), (''VM-CHAT'', 98), (''VM-MUSIC'', 99)] CC_TO_BUS []
      = Inr [(1, 97), (2, 98), (3, 99)]"
proof -
  have r: "resolve_buses [(''VM-GAME'', 97), (''VM-CHAT'', 98), (''VM-MUSIC'', 99)] CC_TO_BUS []
      = Inr [(1, 97), (2, 98), (3, 99)]"
    by (simp add: CC_TO_BUS_def)
  have h: "Control_change 0 5 10 = Other_message
      \<or> (\<exists>ch cc val. Control_change 0 5 10 = Control_change ch cc val
            \<and> cc \<notin> fst ` set [(1, 97), (2, 98), (3, 99::int)])"
    by simp
  from ignored_message_issues_no_command
    [of "Control_change 0 5 10" "[(1, 97), (2, 98), (3, 99)]" "example_world [] []" "[]"
        "[Control_change 0 1 100]" "[Other_message]"] h r
  show ?thesis by blast
qed

lemma digits10_short: "n < 1000 \<Longrightarrow> length (digits10 n) \<le> 3"
  by (subst digits10.simps, subst digits10.simps, subst digits10.simps) (simp add: digits10.simps)

lemma py_str_percent:
  assumes "0 \<le> p" and "p \<le> 100"
  shows "\<exists>sp. py_str maxd p = Inr sp"
proof -
  have "nat \<bar>p\<bar> < 1000" using assms by simp
  then have "length (digits10 (nat \<bar>p\<bar>)) \<le> 3" by (rule digits10_short)
  then show ?thesis by (simp add: py_str_def too_many_digits_def Let_def)
qed

lemma handle_message_trace: "prefix tr (snd (handle_message w bus_ids msg tr))"
  by (cases msg)
    (auto simp: handle_message_def set_volume_def sh_def split: option.splits sum.splits)

lemma event_loop_trace: "prefix tr (snd (event_loop w bus_ids msgs tr))"
proof (induction msgs arbitrary: tr)
  case Nil
  show ?case by simp
next
  case (Cons m msgs)
  obtain r tr' where h: "handle_message w bus_ids m tr = (r, tr')"
    by (cases "handle_message w bus_ids m tr")
  have p: "prefix tr tr'" using handle_message_trace[of tr w bus_ids m] h by simp
  show ?case
  proof (cases r)
    case (Inl e)
    with h p show ?thesis by simp
  next
    case (Inr u)
    have "prefix tr' (snd (event_loop w bus_ids msgs tr'))" by (rule Cons.IH)
    with p have "prefix tr (snd (event_loop w bus_ids msgs tr'))"
      by (rule prefix_order.trans)
    with h Inr show ?thesis by simp
  qed
qed

lemma event_loop_append:
  "event_loop w bus_ids before tr = (Inr (), tr')
     \<Longrightarrow> event_loop w bus_ids (before @ msgs) tr = event_loop w bus_ids msgs tr'"
proof (induction before arbitrary: tr)
  case Nil
  then show ?case by simp
next
  case (Cons m before)
  obtain r t where h: "handle_message w bus_ids m tr = (r, t)"
    by (cases "handle_message w bus_ids m tr")
  show ?case
  proof (cases r)
    case (Inl e)
    with h Cons.prems show ?thesis by simp
  next
    case (Inr u)
    with h Cons.prems have "event_loop w bus_ids before t = (Inr (), tr')" by simp
    then have "event_loop w bus_ids (before @ msgs) t = event_loop w bus_ids msgs tr'"
      by (rule Cons.IH)
    with h Inr show ?thesis by simp
  qed
qed

lemma event_loop_step:
  assumes "handle_message w bus_ids msg tr = (r, tr @ [Sh cmd])"
  shows "prefix (tr @ [Sh cmd]) (snd (event_loop w bus_ids (msg # rest) tr))"
proof (cases r)
  case (Inl e)
  with assms show ?thesis by simp
next
  case (Inr u)
  with assms show ?thesis by (simp add: event_loop_trace)
qed

lemma resolve_buses_game:
  assumes "resolve_buses sinks CC_TO_BUS [] = Inr bus_ids"
    and "map_of sinks ''VM-GAME'' = Some i"
  shows "map_of bus_ids 1 = Some i"
  using assms
  by (auto simp: CC_TO_BUS_def AList.update_conv' split: option.splits)

lemma main_trace:
  assumes "get_sink_ids_by_description w [Print ''Scanning PipeWire sinks...''] = (Inr sinks, tr1)"
    and "resolve_buses sinks CC_TO_BUS [] = Inr bus_ids"
    and "find_midi_port w tr1 = (Inr midi_port, tr2)"
    and "mapping_message (int_max_str_digits w) bus_ids = Inr mapping"
  shows "snd (main w msgs) =
     snd (event_loop w bus_ids msgs
            (tr2 @ [Print (''Listening on MIDI: '' @ midi_port), Print mapping,
                    Print ''Move knobs now... (Ctrl+C to exit)'', Open_input midi_port]))
       @ [Close_input]"
proof -
  obtain r t where e: "event_loop w bus_ids msgs
            (tr2 @ [Print (''Listening on MIDI: '' @ midi_port), Print mapping,
                    Print ''Move knobs now... (Ctrl+C to exit)'', Open_input midi_port]) = (r, t)"
    by (cases "event_loop w bus_ids msgs
            (tr2 @ [Print (''Listening on MIDI: '' @ midi_port), Print mapping,
                    Print ''Move knobs now... (Ctrl+C to exit)'', Open_input midi_port])")
  show ?thesis
    using assms e by (cases r) (simp_all add: main_def)
qed


lemma example_buses_sinks:
  "scan_lines 4300 False [] (splitlines example_buses_status)
     = Inr [(''VM-GAME'', 97), (''VM-CHAT'', 98), (''VM-MUSIC'', 99)]"
  by code_simp

text \<open>
  C5. When controller 1 is mapped to node id 97 and a control change of controller 1 with
  value 100 arrives, the event loop runs the external command
  \<open>wpctl set-volume 97 79%\<close>: the node id in decimal and the percentage followed by a
  percent sign. The command is the next event of the loop's trace, wherever in the stream
  the message arrives, and the loop goes on with the rest of the stream when the command
  succeeds. So it is in \<open>main\<close>: once startup has resolved VM-GAME to 97, the command follows
  the opening of the port when the message comes first. In general a control change of a
  mapped controller with a value from 0 to 127 makes the loop run the command with
  \<open>str(node_id)\<close> and \<open>str(pct)\<close> followed by a percent sign.
\<close>

theorem control_change_sets_volume:
  "(map_of bus_ids 1 = Some 97 \<longrightarrow>
      handle_message w bus_ids (Control_change ch 1 100) tr
        = (case check_output w tr [''wpctl'', ''set-volume'', ''97'', ''79%''] of
             Inl e \<Rightarrow> Inl e
           | Inr out \<Rightarrow> Inr (),
           tr @ [Sh [''wpctl'', ''set-volume'', ''97'', ''79%'']])
      \<and> event_loop w bus_ids (Control_change ch 1 100 # rest) tr
        = (case check_output w tr [''wpctl'', ''set-volume'', ''97'', ''79%''] of
             Inl e \<Rightarrow> (Inl e, tr @ [Sh [''wpctl'', ''set-volume'', ''97'', ''79%'']])
           | Inr out \<Rightarrow>
               event_loop w bus_ids rest (tr @ [Sh [''wpctl'', ''set-volume'', ''97'', ''79%'']]))
      \<and> (event_loop w bus_ids before tr = (Inr (), tr') \<longrightarrow>
            prefix (tr' @ [Sh [''wpctl'', ''set-volume'', ''97'', ''79%'']])
              (snd (event_loop w bus_ids (before @ Control_change ch 1 100 # rest) tr))))
   \<and> (map_of bus_ids cc = Some node \<and> 0 \<le> val \<and> val \<le> 127
        \<and> py_str (int_max_str_digits w) node = Inr sn \<longrightarrow>
        (\<exists>p sp. pct val = Inr p \<and> py_str (int_max_str_digits w) p = Inr sp
           \<and> snd (handle_message w bus_ids (Control_change ch cc val) tr)
               = tr @ [Sh [''wpctl'', ''set-volume'', sn, sp @ ''%'']]
           \<and> prefix (tr @ [Sh [''wpctl'', ''set-volume'', sn, sp @ ''%'']])
               (snd (event_loop w bus_ids (Control_change ch cc val # rest) tr))))
   \<and> (get_sink_ids_by_description w [Print ''Scanning PipeWire sinks...''] = (Inr sinks, tr1)
        \<and> map_of sinks ''VM-GAME'' = Some 97
        \<and> resolve_buses sinks CC_TO_BUS [] = Inr ids
        \<and> find_midi_port w tr1 = (Inr midi_port, tr2)
        \<and> mapping_message (int_max_str_digits w) ids = Inr mapping \<longrightarrow>
        prefix (tr2 @ [Print (''Listening on MIDI: '' @ midi_port), Print mapping,
                       Print ''Move knobs now... (Ctrl+C to exit)'', Open_input midi_port,
                       Sh [''wpctl'', ''set-volume'', ''97'', ''79%'']])
          (snd (main w (Control_change ch 1 100 # rest))))"
proof -
  let ?cmd = "[''wpctl'', ''set-volume'', ''97'', ''79%'']"
  have hm: "handle_message w b (Control_change ch 1 100) t
        = (case check_output w t ?cmd of Inl e \<Rightarrow> Inl e | Inr out \<Rightarrow> Inr (), t @ [Sh ?cmd])"
    if "map_of b 1 = Some 97" for b t
    using that
    by (simp add: handle_message_def set_volume_def pct_100 py_str_97 py_str_79 sh_def
        split: sum.splits)
  have el: "event_loop w b (Control_change ch 1 100 # rest) t
        = (case check_output w t ?cmd of
             Inl e \<Rightarrow> (Inl e, t @ [Sh ?cmd])
           | Inr out \<Rightarrow> event_loop w b rest (t @ [Sh ?cmd]))"
    if "map_of b 1 = Some 97" for b t
    by (simp add: hm[OF that] split: sum.splits)
  have pre: "prefix (t @ [Sh ?cmd]) (snd (event_loop w b (Control_change ch 1 100 # rest) t))"
    if "map_of b 1 = Some 97" for b t
    using hm[OF that] by (rule event_loop_step)
  have first: "map_of bus_ids 1 = Some 97 \<longrightarrow>
      handle_message w bus_ids (Control_change ch 1 100) tr
        = (case check_output w tr ?cmd of Inl e \<Rightarrow> Inl e | Inr out \<Rightarrow> Inr (), tr @ [Sh ?cmd])
      \<and> event_loop w bus_ids (Control_change ch 1 100 # rest) tr
        = (case check_output w tr ?cmd of
             Inl e \<Rightarrow> (Inl e, tr @ [Sh ?cmd])
           | Inr out \<Rightarrow> event_loop w bus_ids rest (tr @ [Sh ?cmd]))
      \<and> (event_loop w bus_ids before tr = (Inr (), tr') \<longrightarrow>
            prefix (tr' @ [Sh ?cmd])
              (snd (event_loop w bus_ids (before @ Control_change ch 1 100 # rest) tr)))"
  proof (intro impI conjI)
    assume m: "map_of bus_ids 1 = Some 97"
    show "handle_message w bus_ids (Control_change ch 1 100) tr
        = (case check_output w tr ?cmd of Inl e \<Rightarrow> Inl e | Inr out \<Rightarrow> Inr (), tr @ [Sh ?cmd])"
      using m by (rule hm)
    show "event_loop w bus_ids (Control_change ch 1 100 # rest) tr
        = (case check_output w tr ?cmd of
             Inl e \<Rightarrow> (Inl e, tr @ [Sh ?cmd])
           | Inr out \<Rightarrow> event_loop w bus_ids rest (tr @ [Sh ?cmd]))"
      using m by (rule el)
    assume "event_loop w bus_ids before tr = (Inr (), tr')"
    then have "event_loop w bus_ids (before @ Control_change ch 1 100 # rest) tr
        = event_loop w bus_ids (Control_change ch 1 100 # rest) tr'"
      by (rule event_loop_append)
    then show "prefix (tr' @ [Sh ?cmd])
        (snd (event_loop w bus_ids (before @ Control_change ch 1 100 # rest) tr))"
      using pre[OF m, of tr'] by simp
  qed
  have second: "map_of bus_ids cc = Some node \<and> 0 \<le> val \<and> val \<le> 127
        \<and> py_str (int_max_str_digits w) node = Inr sn \<longrightarrow>
        (\<exists>p sp. pct val = Inr p \<and> py_str (int_max_str_digits w) p = Inr sp
           \<and> snd (handle_message w bus_ids (Control_change ch cc val) tr)
               = tr @ [Sh [''wpctl'', ''set-volume'', sn, sp @ ''%'']]
           \<and> prefix (tr @ [Sh [''wpctl'', ''set-volume'', sn, sp @ ''%'']])
               (snd (event_loop w bus_ids (Control_change ch cc val # rest) tr)))"
  proof
    assume a: "map_of bus_ids cc = Some node \<and> 0 \<le> val \<and> val \<le> 127
        \<and> py_str (int_max_str_digits w) node = Inr sn"
    define p where "p = (200 * val + 127) div 254"
    have p: "pct val = Inr p" unfolding p_def using a by (intro pct_value) simp_all
    have "0 \<le> p" unfolding p_def using a by (simp add: pos_imp_zdiv_nonneg_iff)
    moreover have "(200 * val + 127) div 254 \<le> (200 * 127 + 127) div 254"
      using a by (intro zdiv_mono1) simp_all
    then have "p \<le> 100" unfolding p_def by simp
    ultimately have "0 \<le> p" "p \<le> 100" by simp_all
    then obtain sp where sp: "py_str (int_max_str_digits w) p = Inr sp"
      using py_str_percent by blast
    have sn: "snd (handle_message w bus_ids (Control_change ch cc val) tr)
               = tr @ [Sh [''wpctl'', ''set-volume'', sn, sp @ ''%'']]"
      using a p sp by (simp add: handle_message_def set_volume_def sh_def split: sum.splits)
    have h: "handle_message w bus_ids (Control_change ch cc val) tr
               = (fst (handle_message w bus_ids (Control_change ch cc val) tr),
                  tr @ [Sh [''wpctl'', ''set-volume'', sn, sp @ ''%'']])"
      by (simp add: sn[symmetric])
    note sn
    moreover have "prefix (tr @ [Sh [''wpctl'', ''set-volume'', sn, sp @ ''%'']])
               (snd (event_loop w bus_ids (Control_change ch cc val # rest) tr))"
      using h by (rule event_loop_step)
    ultimately show "\<exists>p sp. pct val = Inr p \<and> py_str (int_max_str_digits w) p = Inr sp
           \<and> snd (handle_message w bus_ids (Control_change ch cc val) tr)
               = tr @ [Sh [''wpctl'', ''set-volume'', sn, sp @ ''%'']]
           \<and> prefix (tr @ [Sh [''wpctl'', ''set-volume'', sn, sp @ ''%'']])
               (snd (event_loop w bus_ids (Control_change ch cc val # rest) tr))"
      using p sp by blast
  qed
  have third: "get_sink_ids_by_description w [Print ''Scanning PipeWire sinks...''] = (Inr sinks, tr1)
        \<and> map_of sinks ''VM-GAME'' = Some 97
        \<and> resolve_buses sinks CC_TO_BUS [] = Inr ids
        \<and> find_midi_port w tr1 = (Inr midi_port, tr2)
        \<and> mapping_message (int_max_str_digits w) ids = Inr mapping \<longrightarrow>
        prefix (tr2 @ [Print (''Listening on MIDI: '' @ midi_port), Print mapping,
                       Print ''Move knobs now... (Ctrl+C to exit)'', Open_input midi_port,
                       Sh ?cmd])
          (snd (main w (Control_change ch 1 100 # rest)))"
  proof
    let ?tr3 = "tr2 @ [Print (''Listening on MIDI: '' @ midi_port), Print mapping,
                    Print ''Move knobs now... (Ctrl+C to exit)'', Open_input midi_port]"
    assume a: "get_sink_ids_by_description w [Print ''Scanning PipeWire sinks...''] = (Inr sinks, tr1)
        \<and> map_of sinks ''VM-GAME'' = Some 97
        \<and> resolve_buses sinks CC_TO_BUS [] = Inr ids
        \<and> find_midi_port w tr1 = (Inr midi_port, tr2)
        \<and> mapping_message (int_max_str_digits w) ids = Inr mapping"
    then have m: "map_of ids 1 = Some 97" by (intro resolve_buses_game[of sinks]) simp_all
    have "snd (main w (Control_change ch 1 100 # rest)) =
        snd (event_loop w ids (Control_change ch 1 100 # rest) ?tr3) @ [Close_input]"
      using a by (intro main_trace[of w sinks tr1]) simp_all
    moreover have "prefix (?tr3 @ [Sh ?cmd])
        (snd (event_loop w ids (Control_change ch 1 100 # rest) ?tr3))"
      using m by (rule pre)
    ultimately have "prefix (?tr3 @ [Sh ?cmd]) (snd (main w (Control_change ch 1 100 # rest)))"
      by (simp only: prefix_prefix)
    then show "prefix (tr2 @ [Print (''Listening on MIDI: '' @ midi_port), Print mapping,
                       Print ''Move knobs now... (Ctrl+C to exit)'', Open_input midi_port,
                       Sh ?cmd])
          (snd (main w (Control_change ch 1 100 # rest)))"
      by simp
  qed
  from first second third show ?thesis by (intro conjI)
qed


theorem control_change_sets_volume_witness:
  "map_of [(1, 97), (2, 98), (3, 99 :: int)] (1 :: int) = Some 97
   \<and> handle_message (example_world example_buses_status [''Midi Through'', ''LPD8 MIDI 1''])
        [(1, 97), (2, 98), (3, 99)] (Control_change 0 1 100) []
      = (Inr (), [Sh [''wpctl'', ''set-volume'', ''97'', ''79%'']])
   \<and> event_loop (example_world example_buses_status [''Midi Through'', ''LPD8 MIDI 1''])
        [(1, 97), (2, 98), (3, 99)] (Control_change 0 1 100 # [Other_message]) []
      = (Inr (), [Sh [''wpctl'', ''set-volume'', ''97'', ''79%'']])
   \<and> Sh [''wpctl'', ''set-volume'', ''97'', ''79%'']
      \<in> set (snd (main (example_world example_buses_status [''Midi Through'', ''LPD8 MIDI 1''])
                  (Control_change 0 1 100 # [Other_message])))"
proof -
  let ?cmd = "[''wpctl'', ''set-volume'', ''97'', ''79%'']"
  let ?ids = "[(1, 97), (2, 98), (3, 99 :: int)] :: (int \<times> int) list"
  let ?sinks = "[(''VM-GAME'', 97), (''VM-CHAT'', 98), (''VM-MUSIC'', 99 :: int)]"
  let ?w = "example_world example_buses_status [''Midi Through'', ''LPD8 MIDI 1'']"
  let ?tr1 = "[Print ''Scanning PipeWire sinks...'', Sh [''wpctl'', ''status'']]"
  have h: "map_of ?ids 1 = Some 97" by simp
  have c: "check_output ?w [] ?cmd = Inr []"
    by (simp add: example_world_def)
  have g: "get_sink_ids_by_description ?w [Print ''Scanning PipeWire sinks...''] = (Inr ?sinks, ?tr1)"
    by (simp add: get_sink_ids_by_description_def sh_def example_world_def example_buses_sinks)
  have ms: "map_of ?sinks ''VM-GAME'' = Some 97" by simp
  have rb: "resolve_buses ?sinks CC_TO_BUS [] = Inr ?ids" by (simp add: CC_TO_BUS_def)
  have fp: "first_port [''Midi Through'', ''LPD8 MIDI 1''] = Some ''LPD8 MIDI 1''" by code_simp
  have f: "find_midi_port ?w ?tr1 = (Inr ''LPD8 MIDI 1'', ?tr1 @ [Get_input_names])"
    by (simp add: find_midi_port_def example_world_def fp del: first_port.simps)
  have "case mapping_message 4300 ?ids of Inl e \<Rightarrow> False | Inr m \<Rightarrow> True" by code_simp
  then obtain mapping where "mapping_message 4300 ?ids = Inr mapping"
    by (cases "mapping_message 4300 ?ids") simp_all
  then have mm: "mapping_message (int_max_str_digits ?w) ?ids = Inr mapping"
    by (simp add: example_world_def)
  note t = control_change_sets_volume
    [of ?ids ?w 0 "[]" "[Other_message]" "[]" "[]" 1 97 100 "''97''" ?sinks ?tr1 ?ids
        "''LPD8 MIDI 1''" "?tr1 @ [Get_input_names]" mapping]
  from t h have a: "handle_message ?w ?ids (Control_change 0 1 100) []
        = (case check_output ?w [] ?cmd of Inl e \<Rightarrow> Inl e | Inr out \<Rightarrow> Inr (), [] @ [Sh ?cmd])"
    and b: "event_loop ?w ?ids (Control_change 0 1 100 # [Other_message]) []
        = (case check_output ?w [] ?cmd of
             Inl e \<Rightarrow> (Inl e, [] @ [Sh ?cmd])
           | Inr out \<Rightarrow> event_loop ?w ?ids [Other_message] ([] @ [Sh ?cmd]))"
    by blast+
  have a': "handle_message ?w ?ids (Control_change 0 1 100) [] = (Inr (), [Sh ?cmd])"
    using a unfolding c by simp
  have b': "event_loop ?w ?ids (Control_change 0 1 100 # [Other_message]) [] = (Inr (), [Sh ?cmd])"
    using b unfolding c by (simp add: handle_message_def)
  from t g ms rb f mm
  have "prefix ((?tr1 @ [Get_input_names]) @ [Print (''Listening on MIDI: '' @ ''LPD8 MIDI 1''),
                       Print mapping, Print ''Move knobs now... (Ctrl+C to exit)'',
                       Open_input ''LPD8 MIDI 1'', Sh ?cmd])
          (snd (main ?w (Control_change 0 1 100 # [Other_message])))"
    by blast
  then have "set ((?tr1 @ [Get_input_names]) @ [Print (''Listening on MIDI: '' @ ''LPD8 MIDI 1''),
                       Print mapping, Print ''Move knobs now... (Ctrl+C to exit)'',
                       Open_input ''LPD8 MIDI 1'', Sh ?cmd])
          \<subseteq> set (snd (main ?w (Control_change 0 1 100 # [Other_message])))"
    by (rule set_mono_prefix)
  then have d: "Sh ?cmd \<in> set (snd (main ?w (Control_change 0 1 100 # [Other_message])))"
    by simp
  from h a' b' d show ?thesis by (intro conjI)
qed

section \<open>Startup\<close>

lemma example_status_sinks:
  "scan_lines 4300 False [] (splitlines example_status)
     = Inr [(''VM-GAME'', 97), (''Astro A50 Game'', 103)]"
  by code_simp

lemma resolve_buses_missing:
  assumes "\<exists>(cc, bus) \<in> set items. bus \<notin> fst ` set sinks"
  shows "\<exists>cc bus. resolve_buses sinks items acc = Inl bus \<and> (cc, bus) \<in> set items
           \<and> bus \<notin> fst ` set sinks"
  using assms
proof (induction sinks items acc rule: resolve_buses.induct)
  case (1 sinks bus_ids)
  then show ?case by simp
next
  case (2 sinks cc bus items bus_ids)
  show ?case
  proof (cases "map_of sinks bus")
    case None
    then have "bus \<notin> fst ` set sinks" by (simp add: map_of_eq_None_iff)
    with None show ?thesis by auto
  next
    case (Some sink_id)
    then have "bus \<in> fst ` set sinks" by (metis map_of_eq_None_iff option.distinct(1))
    with "2.prems" have "\<exists>(cc, bus) \<in> set items. bus \<notin> fst ` set sinks" by auto
    with "2.IH" Some obtain cc' bus' where
      "resolve_buses sinks items (AList.update cc sink_id bus_ids) = Inl bus'"
      "(cc', bus') \<in> set items" "bus' \<notin> fst ` set sinks"
      by blast
    with Some show ?thesis by auto
  qed
qed

lemma get_sink_ids_trace:
  "get_sink_ids_by_description w tr = (r, tr') \<Longrightarrow> tr' = tr @ [Sh [''wpctl'', ''status'']]"
  by (auto simp: get_sink_ids_by_description_def sh_def split: sum.splits)

lemma missing_sink_message_lists:
  assumes "name \<in> set (take 12 (map fst sinks))"
  shows "sublist (repr_str name) (missing_sink_message bus sinks)"
proof -
  have "sublist (repr_str name) (repr_str_list (take 12 (map fst sinks)))"
    using assms by (rule sublist_repr_str_list)
  then have "sublist (repr_str name)
     ((''[!] Can'' @ [CHR 0x27] @ ''t find sink named '' @ [CHR 0x27] @ bus @ [CHR 0x27]
       @ '' in wpctl status. Current sinks include: '')
       @ repr_str_list (take 12 (map fst sinks)) @ '' ...'')"
    by (rule sublist_context)
  then show ?thesis by (simp add: missing_sink_message_def)
qed

text \<open>
  C4. If a name of the controller mapping has no entry in the scraped sink table, \<open>main\<close>
  ends with \<open>sys.exit(1)\<close>, a non-zero exit status, after printing a diagnostic that names
  the missing sink and lists known sink names (the first twelve of the table, in the order
  of the status text). The trace then holds the first message, the status command and the
  diagnostic only: the MIDI ports were neither listed nor opened.
\<close>

theorem missing_sink_exits_before_midi:
  assumes "get_sink_ids_by_description w [Print ''Scanning PipeWire sinks...''] = (Inr sinks, tr1)"
    and "\<exists>(cc, bus) \<in> set CC_TO_BUS. bus \<notin> fst ` set sinks"
  shows "\<exists>cc bus. (cc, bus) \<in> set CC_TO_BUS \<and> bus \<notin> fst ` set sinks
     \<and> main w msgs = (Exit 1, [Print ''Scanning PipeWire sinks...'', Sh [''wpctl'', ''status''],
                                 Print (missing_sink_message bus sinks)])
     \<and> exit_status (fst (main w msgs)) \<noteq> 0
     \<and> Get_input_names \<notin> set (snd (main w msgs))
     \<and> (\<forall>p. Open_input p \<notin> set (snd (main w msgs)))
     \<and> (\<forall>name \<in> set (take 12 (map fst sinks)).
           sublist (repr_str name) (missing_sink_message bus sinks))"
proof -
  obtain cc bus where r: "resolve_buses sinks CC_TO_BUS [] = Inl bus"
    and m: "(cc, bus) \<in> set CC_TO_BUS" "bus \<notin> fst ` set sinks"
    using resolve_buses_missing[OF assms(2)] by blast
  have tr1: "tr1 = [Print ''Scanning PipeWire sinks...''] @ [Sh [''wpctl'', ''status'']]"
    using assms(1) by (rule get_sink_ids_trace)
  have main: "main w msgs = (Exit 1, [Print ''Scanning PipeWire sinks...'', Sh [''wpctl'', ''status''],
                                 Print (missing_sink_message bus sinks)])"
    using assms(1) r by (simp add: main_def tr1)
  have "\<forall>name \<in> set (take 12 (map fst sinks)).
           sublist (repr_str name) (missing_sink_message bus sinks)"
    using missing_sink_message_lists by blast
  with m main show ?thesis by (intro exI[of _ cc] exI[of _ bus]) simp
qed


theorem missing_sink_exits_before_midi_witness:
  "get_sink_ids_by_description (example_world example_status [''LPD8 MIDI 1''])
       [Print ''Scanning PipeWire sinks...'']
     = (Inr [(''VM-GAME'', 97), (''Astro A50 Game'', 103)],
        [Print ''Scanning PipeWire sinks...'', Sh [''wpctl'', ''status'']])
   \<and> (\<exists>(cc, bus) \<in> set CC_TO_BUS. bus \<notin> fst ` set [(''VM-GAME'', 97 :: int), (''Astro A50 Game'', 103)])
   \<and> fst (main (example_world example_status [''LPD8 MIDI 1'']) [Control_change 0 1 100]) = Exit 1
   \<and> Get_input_names \<notin> set (snd (main (example_world example_status [''LPD8 MIDI 1''])
          [Control_change 0 1 100]))"
proof -
  let ?w = "example_world example_status [''LPD8 MIDI 1'']"
  have g: "get_sink_ids_by_description ?w [Print ''Scanning PipeWire sinks...'']
     = (Inr [(''VM-GAME'', 97), (''Astro A50 Game'', 103)],
        [Print ''Scanning PipeWire sinks...'', Sh [''wpctl'', ''status'']])"
    by (simp add: get_sink_ids_by_description_def sh_def example_world_def example_status_sinks)
  have h: "\<exists>(cc, bus) \<in> set CC_TO_BUS. bus \<notin> fst ` set [(''VM-GAME'', 97 :: int), (''Astro A50 Game'', 103)]"
    by (simp add: CC_TO_BUS_def)
  from missing_sink_exits_before_midi [OF g h, of "[Control_change 0 1 100]"]
  have "fst (main ?w [Control_change 0 1 100]) = Exit 1
      \<and> Get_input_names \<notin> set (snd (main ?w [Control_change 0 1 100]))"
    by auto
  with g h show ?thesis by blast
qed

section \<open>The sink resolver: scanning the status text\<close>

lemma scan_lines_before_header:
  assumes "\<forall>line \<in> set pre. \<not> startswith (strip line) ''Sinks:''"
  shows "scan_lines maxd False out (pre @ rest) = scan_lines maxd False out rest"
  using assms by (induction pre) simp_all

text \<open>
  C9. When the status command prints a text none of whose lines, stripped, starts with
  \<open>Sinks:\<close>, the sink resolver returns the empty mapping and raises nothing. Lines before
  the first header do not end the scan and add nothing, a \<open>Sources:\<close> line among them
  included: the scan of \<open>pre @ rest\<close> is the scan of \<open>rest\<close>.
\<close>

theorem no_sinks_header_gives_empty_table:
  "(check_output w tr [''wpctl'', ''status''] = Inr txt
      \<and> (\<forall>line \<in> set (splitlines txt). \<not> startswith (strip line) ''Sinks:'')
    \<longrightarrow> get_sink_ids_by_description w tr = (Inr [], tr @ [Sh [''wpctl'', ''status'']]))
   \<and> ((\<forall>line \<in> set pre. \<not> startswith (strip line) ''Sinks:'')
    \<longrightarrow> scan_lines maxd False out (pre @ rest) = scan_lines maxd False out rest)"
proof (intro conjI impI)
  assume a: "check_output w tr [''wpctl'', ''status''] = Inr txt
      \<and> (\<forall>line \<in> set (splitlines txt). \<not> startswith (strip line) ''Sinks:'')"
  then have "scan_lines (int_max_str_digits w) False [] (splitlines txt @ [])
      = scan_lines (int_max_str_digits w) False [] []"
    by (intro scan_lines_before_header) simp
  then have "scan_lines (int_max_str_digits w) False [] (splitlines txt) = Inr []" by simp
  with a show "get_sink_ids_by_description w tr = (Inr [], tr @ [Sh [''wpctl'', ''status'']])"
    by (simp add: get_sink_ids_by_description_def sh_def)
next
  assume "\<forall>line \<in> set pre. \<not> startswith (strip line) ''Sinks:''"
  then show "scan_lines maxd False out (pre @ rest) = scan_lines maxd False out rest"
    by (rule scan_lines_before_header)
qed

theorem no_sinks_header_gives_empty_table_witness:
  "splitlines example_no_sinks = [''Audio'', ''Sources:'', ''   55. Mic [vol: 1.00]'', ''Filters:'']
   \<and> get_sink_ids_by_description (example_world example_no_sinks []) []
       = (Inr [], [Sh [''wpctl'', ''status'']])
   \<and> scan_lines 4300 False [] ([''Sources:'', ''   55. Mic [vol: 1.00]'']
         @ [''Sinks:'', ''   97. VM-GAME [vol: 1.00]''])
       = Inr [(''VM-GAME'', 97)]"
proof -
  let ?w = "example_world example_no_sinks []"
  have s: "splitlines example_no_sinks = [''Audio'', ''Sources:'', ''   55. Mic [vol: 1.00]'', ''Filters:'']"
    by code_simp
  have "list_all (\<lambda>line. \<not> startswith (strip line) ''Sinks:'')
      [''Audio'', ''Sources:'', ''   55. Mic [vol: 1.00]'', ''Filters:'']"
    by code_simp
  then have n: "\<forall>line \<in> set (splitlines example_no_sinks). \<not> startswith (strip line) ''Sinks:''"
    unfolding s by (simp only: list_all_iff)
  have c: "check_output ?w [] [''wpctl'', ''status''] = Inr example_no_sinks"
    by (simp add: example_world_def)
  have "list_all (\<lambda>line. \<not> startswith (strip line) ''Sinks:'') [''Sources:'', ''   55. Mic [vol: 1.00]'']"
    by code_simp
  then have p: "\<forall>line \<in> set [''Sources:'', ''   55. Mic [vol: 1.00]'']. \<not> startswith (strip line) ''Sinks:''"
    by (simp only: list_all_iff)
  have r: "scan_lines 4300 False [] [''Sinks:'', ''   97. VM-GAME [vol: 1.00]''] = Inr [(''VM-GAME'', 97)]"
    by code_simp
  note t = no_sinks_header_gives_empty_table
    [of ?w "[]" example_no_sinks "[''Sources:'', ''   55. Mic [vol: 1.00]'']" 4300 "[]"
        "[''Sinks:'', ''   97. VM-GAME [vol: 1.00]'']"]
  from t c n have "get_sink_ids_by_description ?w [] = (Inr [], [] @ [Sh [''wpctl'', ''status'']])"
    by blast
  moreover from t p have "scan_lines 4300 False [] ([''Sources:'', ''   55. Mic [vol: 1.00]'']
         @ [''Sinks:'', ''   97. VM-GAME [vol: 1.00]''])
       = scan_lines 4300 False [] [''Sinks:'', ''   97. VM-GAME [vol: 1.00]'']"
    by blast
  ultimately show ?thesis using s r by simp
qed

lemma strip_Cons:
  assumes "dropWhile isspace l = c # t"
  shows "\<exists>t'. strip l = c # t'"
proof -
  have c: "\<not> isspace c"
    using hd_dropWhile[of isspace l] assms by simp
  have "dropWhile isspace (rev t @ [c]) = dropWhile isspace (rev t) @ [c]"
    using c by (simp add: dropWhile_append)
  then have "strip l = c # rev (dropWhile isspace (rev t))"
    using assms by (simp add: strip_def)
  then show ?thesis by blast
qed

lemma line_re_match_first_char:
  assumes "line_re_match line = Some (d, g)"
  shows "\<exists>c t. strip line = c # t \<and> (c = CHR ''*'' \<or> isdigit c)"
proof -
  define l1 where "l1 = dropWhile isspace line"
  define l2 where "l2 = (case l1 of [] \<Rightarrow> [] | c # t \<Rightarrow> if c = CHR ''*'' then t else l1)"
  define l3 where "l3 = dropWhile isspace l2"
  have ds: "takeWhile isdigit l3 \<noteq> []"
    using assms unfolding line_re_match_def Let_def l1_def[symmetric] l2_def[symmetric] l3_def[symmetric]
    by (auto split: if_splits)
  obtain c t where l1: "l1 = c # t"
  proof (cases l1)
    case Nil
    then have "l3 = []" by (simp add: l2_def l3_def)
    with ds show ?thesis by simp
  next
    case (Cons c t)
    then show ?thesis using that by blast
  qed
  have nsp: "\<not> isspace c"
    using hd_dropWhile[of isspace line] l1 unfolding l1_def by simp
  have "c = CHR ''*'' \<or> isdigit c"
  proof (cases "c = CHR ''*''")
    case True
    then show ?thesis by simp
  next
    case False
    then have "l2 = c # t" by (simp add: l2_def l1)
    then have "l3 = c # t" using nsp by (simp add: l3_def)
    with ds show ?thesis by (auto split: if_splits)
  qed
  moreover obtain t' where "strip line = c # t'"
    using strip_Cons l1 unfolding l1_def by blast
  ultimately show ?thesis by blast
qed

lemma line_re_match_not_header:
  assumes "line_re_match line = Some (d, g)"
  shows "\<not> startswith (strip line) ''Sinks:''" and "\<not> startswith (strip line) ''Sources:''"
proof -
  obtain c t where s: "strip line = c # t" and c: "c = CHR ''*'' \<or> isdigit c"
    using line_re_match_first_char[OF assms] by blast
  have "c \<noteq> CHR ''S''" using c by (auto simp: isdigit_def)
  then show "\<not> startswith (strip line) ''Sinks:''" and "\<not> startswith (strip line) ''Sources:''"
    by (simp_all add: startswith_def s)
qed

lemma scan_lines_header:
  "startswith (strip header) ''Sinks:''
     \<Longrightarrow> scan_lines maxd s out (header # rest) = scan_lines maxd True out rest"
  by simp

lemma scan_lines_in_section:
  assumes "scan_lines maxd True out (xs @ ys) = Inr res"
    and "\<forall>l \<in> set xs. \<not> startswith (strip l) ''Sources:''"
  shows "\<exists>out'. scan_lines maxd True out' ys = Inr res"
  using assms
proof (induction xs arbitrary: out)
  case Nil
  then show ?case by auto
next
  case (Cons x xs)
  from Cons.prems(2) have nx: "\<not> startswith (strip x) ''Sources:''"
    and nxs: "\<forall>l \<in> set xs. \<not> startswith (strip l) ''Sources:''" by simp_all
  show ?case
  proof (cases "startswith (strip x) ''Sinks:''")
    case True
    with Cons.prems(1) have "scan_lines maxd True out (xs @ ys) = Inr res" by simp
    then show ?thesis using nxs by (rule Cons.IH)
  next
    case False
    show ?thesis
    proof (cases "line_re_match x")
      case None
      with False nx Cons.prems(1) have "scan_lines maxd True out (xs @ ys) = Inr res" by simp
      then show ?thesis using nxs by (rule Cons.IH)
    next
      case (Some m)
      obtain d g where m: "m = (d, g)" by (cases m)
      show ?thesis
      proof (cases "py_int maxd d")
        case (Inl e)
        with Some m False nx Cons.prems(1) show ?thesis by simp
      next
        case (Inr i)
        with Some m False nx Cons.prems(1)
        have "scan_lines maxd True (AList.update (strip g) i out) (xs @ ys) = Inr res" by simp
        then show ?thesis using nxs by (rule Cons.IH)
      qed
    qed
  qed
qed

lemma scan_lines_keeps_entry:
  assumes "scan_lines maxd True out rest = Inr res"
    and "map_of out name = Some i"
    and "\<forall>l \<in> set (takeWhile (\<lambda>l. \<not> startswith (strip l) ''Sources:'') rest).
           \<forall>d g. line_re_match l = Some (d, g) \<longrightarrow> strip g \<noteq> name"
  shows "map_of res name = Some i"
  using assms
proof (induction rest arbitrary: out)
  case Nil
  then show ?case by simp
next
  case (Cons x xs)
  show ?case
  proof (cases "startswith (strip x) ''Sources:''")
    case True
    then have "\<not> startswith (strip x) ''Sinks:''"
      by (auto simp: startswith_def prefix_def)
    with True Cons.prems(1) have "res = out" by simp
    with Cons.prems(2) show ?thesis by simp
  next
    case nx: False
    with Cons.prems(3) have
      x: "\<forall>d g. line_re_match x = Some (d, g) \<longrightarrow> strip g \<noteq> name"
      and xs: "\<forall>l \<in> set (takeWhile (\<lambda>l. \<not> startswith (strip l) ''Sources:'') xs).
           \<forall>d g. line_re_match l = Some (d, g) \<longrightarrow> strip g \<noteq> name"
      by simp_all
    show ?thesis
    proof (cases "startswith (strip x) ''Sinks:''")
      case True
      with Cons.prems(1) have "scan_lines maxd True out xs = Inr res" by simp
      then show ?thesis using Cons.prems(2) xs by (rule Cons.IH)
    next
      case False
      show ?thesis
      proof (cases "line_re_match x")
        case None
        with False nx Cons.prems(1) have "scan_lines maxd True out xs = Inr res" by simp
        then show ?thesis using Cons.prems(2) xs by (rule Cons.IH)
      next
        case (Some m)
        obtain d g where m: "m = (d, g)" by (cases m)
        with Some x have ne: "strip g \<noteq> name" by simp
        show ?thesis
        proof (cases "py_int maxd d")
          case (Inl e)
          with Some m False nx Cons.prems(1) show ?thesis by simp
        next
          case (Inr j)
          with Some m False nx Cons.prems(1)
          have "scan_lines maxd True (AList.update (strip g) j out) xs = Inr res" by simp
          moreover have "map_of (AList.update (strip g) j out) name = Some i"
            using ne Cons.prems(2) by (simp add: AList.update_conv')
          ultimately show ?thesis using xs by (rule Cons.IH)
        qed
      qed
    qed
  qed
qed


text \<open>
  C7. When two matching lines inside the sinks section carry the same name, the later one
  overwrites the earlier one. Let the scan meet a header, then \<open>line1\<close> and later \<open>line2\<close>,
  both matching with the same stripped name, no \<open>Sources:\<close> line before \<open>line2\<close>, and let
  no matching line after \<open>line2\<close> and before the next \<open>Sources:\<close> line carry that name. If
  the scan returns a mapping, the mapping gives the name the identifier of \<open>line2\<close>.
\<close>

theorem later_line_overwrites:
  assumes "startswith (strip header) ''Sinks:''"
    and "scan_lines maxd s out (header # before @ line1 # between @ line2 # rest) = Inr res"
    and "\<forall>l \<in> set (before @ line1 # between). \<not> startswith (strip l) ''Sources:''"
    and "line_re_match line1 = Some (d1, g1)"
    and "line_re_match line2 = Some (d2, g2)"
    and "strip g1 = strip g2"
    and "\<forall>l \<in> set (takeWhile (\<lambda>l. \<not> startswith (strip l) ''Sources:'') rest).
           \<forall>d g. line_re_match l = Some (d, g) \<longrightarrow> strip g \<noteq> strip g2"
  shows "\<exists>i. py_int maxd d2 = Inr i \<and> map_of res (strip g2) = Some i"
proof -
  have "scan_lines maxd True out ((before @ line1 # between) @ line2 # rest) = Inr res"
    using assms(1,2) by simp
  then obtain out' where o: "scan_lines maxd True out' (line2 # rest) = Inr res"
    using assms(3) scan_lines_in_section by blast
  have nh: "\<not> startswith (strip line2) ''Sinks:''" "\<not> startswith (strip line2) ''Sources:''"
    using line_re_match_not_header[OF assms(5)] by simp_all
  show ?thesis
  proof (cases "py_int maxd d2")
    case (Inl e)
    with o nh assms(5) show ?thesis by simp
  next
    case (Inr i)
    with o nh assms(5)
    have "scan_lines maxd True (AList.update (strip g2) i out') rest = Inr res" by simp
    moreover have "map_of (AList.update (strip g2) i out') (strip g2) = Some i"
      by (simp add: AList.update_conv')
    ultimately have "map_of res (strip g2) = Some i"
      using assms(7) by (rule scan_lines_keeps_entry)
    with Inr show ?thesis by blast
  qed
qed

theorem later_line_overwrites_witness:
  "scan_lines 4300 False []
     (''Sinks:'' # [] @ ''   97. VM-GAME [vol: 1.00]'' # [''   98. VM-CHAT [vol: 1.00]'']
        @ ''  105. VM-GAME [vol: 0.50]''
        # [''   99. VM-MUSIC [vol: 1.00]'', ''Sources:'', ''    7. VM-GAME [vol: 1.00]''])
     = Inr [(''VM-GAME'', 105), (''VM-CHAT'', 98), (''VM-MUSIC'', 99)]
   \<and> line_re_match ''   97. VM-GAME [vol: 1.00]'' = Some (''97'', ''VM-GAME'')
   \<and> line_re_match ''  105. VM-GAME [vol: 0.50]'' = Some (''105'', ''VM-GAME'')
   \<and> py_int 4300 ''105'' = Inr 105
   \<and> map_of [(''VM-GAME'', 105), (''VM-CHAT'', 98), (''VM-MUSIC'', 99 :: int)] (strip ''VM-GAME'')
       = Some 105"
proof -
  have h: "startswith (strip ''Sinks:'') ''Sinks:''" by code_simp
  have sc: "scan_lines 4300 False []
     (''Sinks:'' # [] @ ''   97. VM-GAME [vol: 1.00]'' # [''   98. VM-CHAT [vol: 1.00]'']
        @ ''  105. VM-GAME [vol: 0.50]''
        # [''   99. VM-MUSIC [vol: 1.00]'', ''Sources:'', ''    7. VM-GAME [vol: 1.00]''])
     = Inr [(''VM-GAME'', 105), (''VM-CHAT'', 98), (''VM-MUSIC'', 99)]"
    by code_simp
  have "list_all (\<lambda>l. \<not> startswith (strip l) ''Sources:'')
      ([] @ ''   97. VM-GAME [vol: 1.00]'' # [''   98. VM-CHAT [vol: 1.00]''])"
    by code_simp
  then have ns: "\<forall>l \<in> set ([] @ ''   97. VM-GAME [vol: 1.00]'' # [''   98. VM-CHAT [vol: 1.00]'']).
      \<not> startswith (strip l) ''Sources:''"
    by (simp only: list_all_iff)
  have m1: "line_re_match ''   97. VM-GAME [vol: 1.00]'' = Some (''97'', ''VM-GAME'')" by code_simp
  have m2: "line_re_match ''  105. VM-GAME [vol: 0.50]'' = Some (''105'', ''VM-GAME'')" by code_simp
  have same: "strip ''VM-GAME'' = strip ''VM-GAME''" by simp
  have tw: "takeWhile (\<lambda>l. \<not> startswith (strip l) ''Sources:'')
      [''   99. VM-MUSIC [vol: 1.00]'', ''Sources:'', ''    7. VM-GAME [vol: 1.00]'']
      = [''   99. VM-MUSIC [vol: 1.00]'']"
    by code_simp
  have m3: "line_re_match ''   99. VM-MUSIC [vol: 1.00]'' = Some (''99'', ''VM-MUSIC'')" by code_simp
  have ne: "strip ''VM-MUSIC'' \<noteq> strip ''VM-GAME''" by code_simp
  have last: "\<forall>l \<in> set (takeWhile (\<lambda>l. \<not> startswith (strip l) ''Sources:'')
        [''   99. VM-MUSIC [vol: 1.00]'', ''Sources:'', ''    7. VM-GAME [vol: 1.00]'']).
      \<forall>d g. line_re_match l = Some (d, g) \<longrightarrow> strip g \<noteq> strip ''VM-GAME''"
    unfolding tw using m3 ne by simp
  have i: "py_int 4300 ''105'' = Inr 105" by code_simp
  from later_line_overwrites [OF h sc ns m1 m2 same last] i
  have "map_of [(''VM-GAME'', 105), (''VM-CHAT'', 98), (''VM-MUSIC'', 99 :: int)] (strip ''VM-GAME'')
       = Some 105"
    by simp
  with sc m1 m2 i show ?thesis by blast
qed

section \<open>The sink resolver on the example status text\<close>

lemma splitlines_Nil: "splitlines [] = []"
  by (simp add: splitlines.simps)

lemma splitlines_step:
  assumes "\<forall>x \<in> set l. \<not> is_linebreak x" and "is_linebreak c"
  shows "splitlines (l @ c # t) =
     l # (case t of [] \<Rightarrow> [] | d # t' \<Rightarrow>
            if c = CHR 0x0D \<and> d = CHR 0x0A then splitlines t' else splitlines t)"
proof -
  have t: "takeWhile (\<lambda>x. \<not> is_linebreak x) (l @ c # t) = l"
    using assms by (simp add: takeWhile_append2)
  have d: "dropWhile (\<lambda>x. \<not> is_linebreak x) (l @ c # t) = c # t"
    using assms by (simp add: dropWhile_append2)
  show ?thesis
    by (subst splitlines.simps) (simp add: t d split: list.splits)
qed

lemma splitlines_line:
  assumes "\<forall>x \<in> set l. \<not> is_linebreak x"
  shows "splitlines (l @ CHR 0x0A # s) = l # splitlines s"
proof -
  have "is_linebreak (CHR 0x0A)" by (simp add: is_linebreak_def)
  with assms have "splitlines (l @ CHR 0x0A # s) =
     l # (case s of [] \<Rightarrow> [] | d # t' \<Rightarrow>
            if CHR 0x0A = CHR 0x0D \<and> d = CHR 0x0A then splitlines t' else splitlines s)"
    by (rule splitlines_step)
  then show ?thesis by (simp add: splitlines_Nil split: list.splits)
qed

lemma splitlines_head:
  assumes "s \<noteq> []"
  shows "\<exists>ls. splitlines s = takeWhile (\<lambda>x. \<not> is_linebreak x) s # ls"
  using assms by (subst splitlines.simps) simp

lemma splitlines_append:
  assumes "pre = [] \<or> last pre = CHR 0x0A"
  shows "splitlines (pre @ s) = splitlines pre @ splitlines s"
  using assms
proof (induction "length pre" arbitrary: pre rule: less_induct)
  case less
  show ?case
  proof (cases "pre = []")
    case True
    then show ?thesis by (simp add: splitlines_Nil)
  next
    case False
    with less.prems have lastp: "last pre = CHR 0x0A" by simp
    define l where "l = takeWhile (\<lambda>x. \<not> is_linebreak x) pre"
    have lnb: "\<forall>x \<in> set l. \<not> is_linebreak x"
      unfolding l_def by (auto dest: set_takeWhileD)
    have "is_linebreak (last pre)" by (simp add: lastp is_linebreak_def)
    moreover have "last pre \<in> set pre" using False by simp
    ultimately have "dropWhile (\<lambda>x. \<not> is_linebreak x) pre \<noteq> []"
      by (auto simp: dropWhile_eq_Nil_conv)
    then obtain c r where dr: "dropWhile (\<lambda>x. \<not> is_linebreak x) pre = c # r"
      by (cases "dropWhile (\<lambda>x. \<not> is_linebreak x) pre") auto
    have c: "is_linebreak c"
      using hd_dropWhile[of "\<lambda>x. \<not> is_linebreak x" pre] dr by simp
    have pre: "pre = l @ c # r"
      unfolding l_def dr[symmetric] by simp
    have sp: "splitlines pre =
       l # (case r of [] \<Rightarrow> [] | d # t' \<Rightarrow>
            if c = CHR 0x0D \<and> d = CHR 0x0A then splitlines t' else splitlines r)"
      unfolding pre using lnb c by (rule splitlines_step)
    have "splitlines (l @ c # (r @ s)) =
       l # (case r @ s of [] \<Rightarrow> [] | d # t' \<Rightarrow>
            if c = CHR 0x0D \<and> d = CHR 0x0A then splitlines t' else splitlines (r @ s))"
      using lnb c by (rule splitlines_step)
    then have sps: "splitlines (pre @ s) =
       l # (case r @ s of [] \<Rightarrow> [] | d # t' \<Rightarrow>
            if c = CHR 0x0D \<and> d = CHR 0x0A then splitlines t' else splitlines (r @ s))"
      unfolding pre by simp
    show ?thesis
    proof (cases r)
      case Nil
      then have "c = CHR 0x0A" using lastp pre by simp
      then show ?thesis
        unfolding sp sps Nil by (simp add: splitlines_Nil split: list.splits)
    next
      case (Cons d r')
      have lr: "last r = CHR 0x0A" using lastp pre Cons by simp
      show ?thesis
      proof (cases "c = CHR 0x0D \<and> d = CHR 0x0A")
        case True
        have "length r' < length pre" unfolding pre Cons by simp
        moreover have "r' = [] \<or> last r' = CHR 0x0A" using lr Cons by (cases r') simp_all
        ultimately have "splitlines (r' @ s) = splitlines r' @ splitlines s"
          by (rule less.hyps)
        then show ?thesis unfolding sp sps Cons using True by simp
      next
        case False
        have "length r < length pre" unfolding pre by simp
        moreover have "r = [] \<or> last r = CHR 0x0A" using lr by simp
        ultimately have "splitlines (r @ s) = splitlines r @ splitlines s"
          by (rule less.hyps)
        then show ?thesis unfolding sp sps using False Cons by auto
      qed
    qed
  qed
qed

lemma strip_keeps_prefix:
  assumes "p \<noteq> []" and "\<not> isspace (hd p)" and "\<not> isspace (last p)"
  shows "prefix p (strip (p @ x))"
proof -
  have a: "dropWhile isspace (p @ x) = p @ x"
    using assms(1,2) by (cases p) simp_all
  have b: "dropWhile isspace (rev p) = rev p"
    using assms(1,3) by (cases "rev p") (simp_all add: hd_rev [symmetric] last_rev)
  have "\<exists>y. dropWhile isspace (rev x @ rev p) = y @ rev p"
    by (auto simp: dropWhile_append b)
  then obtain y where "dropWhile isspace (rev (p @ x)) = y @ rev p" by auto
  then have "strip (p @ x) = p @ rev y" by (simp add: strip_def a)
  then show ?thesis by simp
qed


lemma py_int_97: "py_int maxd ''97'' = Inr 97"
  by (simp add: py_int_def too_many_digits_def digit_val_def)

lemma py_int_103: "py_int maxd ''103'' = Inr 103"
  by (simp add: py_int_def too_many_digits_def digit_val_def)

lemma scan_example_section:
  "scan_lines maxd s []
     (''Sinks:'' # ''   97. VM-GAME [vol: 1.00]'' # ''*  103. Astro A50 Game [vol: 1.00]''
        # (''Sources:'' @ x) # ls)
     = Inr [(''VM-GAME'', 97), (''Astro A50 Game'', 103)]"
proof -
  have hdr: "startswith (strip ''Sinks:'') ''Sinks:''" by code_simp
  have m1: "line_re_match ''   97. VM-GAME [vol: 1.00]'' = Some (''97'', ''VM-GAME'')"
    by code_simp
  have m2: "line_re_match ''*  103. Astro A50 Game [vol: 1.00]'' = Some (''103'', ''Astro A50 Game'')"
    by code_simp
  have n1: "strip ''VM-GAME'' = ''VM-GAME''" by code_simp
  have n2: "strip ''Astro A50 Game'' = ''Astro A50 Game''" by code_simp
  have u: "AList.update ''Astro A50 Game'' 103 [(''VM-GAME'', 97 :: int)]
      = [(''VM-GAME'', 97), (''Astro A50 Game'', 103)]"
    by simp
  have "prefix ''Sources:'' (strip (''Sources:'' @ x))"
    by (rule strip_keeps_prefix) (simp_all add: isspace_def)
  then obtain y where y: "strip (''Sources:'' @ x) = ''Sources:'' @ y"
    unfolding prefix_def by blast
  have src: "startswith (strip (''Sources:'' @ x)) ''Sources:''"
    "\<not> startswith (strip (''Sources:'' @ x)) ''Sinks:''"
    unfolding y by (simp_all add: startswith_def)
  have step0: "scan_lines maxd s []
     (''Sinks:'' # ''   97. VM-GAME [vol: 1.00]'' # ''*  103. Astro A50 Game [vol: 1.00]''
        # (''Sources:'' @ x) # ls)
     = scan_lines maxd True []
     (''   97. VM-GAME [vol: 1.00]'' # ''*  103. Astro A50 Game [vol: 1.00]''
        # (''Sources:'' @ x) # ls)"
    using hdr by (rule scan_lines_header)
  have step1: "scan_lines maxd True []
     (''   97. VM-GAME [vol: 1.00]'' # ''*  103. Astro A50 Game [vol: 1.00]''
        # (''Sources:'' @ x) # ls)
     = scan_lines maxd True [(''VM-GAME'', 97)]
     (''*  103. Astro A50 Game [vol: 1.00]'' # (''Sources:'' @ x) # ls)"
    using line_re_match_not_header[OF m1]
    by (simp only: scan_lines.simps m1 py_int_97 n1 if_False if_True simp_thms option.case
        prod.case sum.case AList.update.simps)
  have step2: "scan_lines maxd True [(''VM-GAME'', 97)]
     (''*  103. Astro A50 Game [vol: 1.00]'' # (''Sources:'' @ x) # ls)
     = scan_lines maxd True [(''VM-GAME'', 97), (''Astro A50 Game'', 103)] ((''Sources:'' @ x) # ls)"
    using line_re_match_not_header[OF m2]
    by (simp only: scan_lines.simps m2 py_int_103 n2 u if_False if_True simp_thms option.case
        prod.case sum.case)
  have step3: "scan_lines maxd True [(''VM-GAME'', 97), (''Astro A50 Game'', 103)] ((''Sources:'' @ x) # ls)
     = Inr [(''VM-GAME'', 97), (''Astro A50 Game'', 103)]"
    using src by (simp only: scan_lines.simps if_False if_True simp_thms)
  show ?thesis
    unfolding step0 step1 step2 step3 ..
qed

text \<open>
  C2. Let the status text be any lines \<open>pre\<close> without a \<open>Sinks:\<close> header, then the line
  \<open>Sinks:\<close>, the lines \<open>   97. VM-GAME [vol: 1.00]\<close> and
  \<open>*  103. Astro A50 Game [vol: 1.00]\<close>, then a line that starts with \<open>Sources:\<close>, then any
  text \<open>post\<close>. The sink resolver returns exactly the mapping of VM-GAME to 97 and Astro A50
  Game to 103: nothing after the \<open>Sources:\<close> marker adds an entry, whatever \<open>post\<close> is.
\<close>

theorem example_sink_table:
  assumes "check_output w tr [''wpctl'', ''status''] =
      Inr (pre @ ''Sinks:'' @ [CHR 0x0A] @ ''   97. VM-GAME [vol: 1.00]'' @ [CHR 0x0A]
             @ ''*  103. Astro A50 Game [vol: 1.00]'' @ [CHR 0x0A] @ ''Sources:'' @ post)"
    and "pre = [] \<or> last pre = CHR 0x0A"
    and "\<forall>line \<in> set (splitlines pre). \<not> startswith (strip line) ''Sinks:''"
  shows "get_sink_ids_by_description w tr =
      (Inr [(''VM-GAME'', 97), (''Astro A50 Game'', 103)], tr @ [Sh [''wpctl'', ''status'']])"
proof -
  define src where "src = ''Sources:'' @ post"
  have s1: "splitlines (''Sinks:'' @ CHR 0x0A # t) = ''Sinks:'' # splitlines t" for t
    by (rule splitlines_line) (simp add: is_linebreak_def)
  have s2: "splitlines (''   97. VM-GAME [vol: 1.00]'' @ CHR 0x0A # t)
      = ''   97. VM-GAME [vol: 1.00]'' # splitlines t" for t
    by (rule splitlines_line) (simp add: is_linebreak_def)
  have s3: "splitlines (''*  103. Astro A50 Game [vol: 1.00]'' @ CHR 0x0A # t)
      = ''*  103. Astro A50 Game [vol: 1.00]'' # splitlines t" for t
    by (rule splitlines_line) (simp add: is_linebreak_def)
  have "src \<noteq> []" by (simp add: src_def)
  then obtain ls where "splitlines src = takeWhile (\<lambda>x. \<not> is_linebreak x) src # ls"
    using splitlines_head by blast
  moreover have "takeWhile (\<lambda>x. \<not> is_linebreak x) src
      = ''Sources:'' @ takeWhile (\<lambda>x. \<not> is_linebreak x) post"
    by (simp add: src_def is_linebreak_def)
  ultimately have s4: "splitlines src = (''Sources:'' @ takeWhile (\<lambda>x. \<not> is_linebreak x) post) # ls"
    by simp
  have shape: "pre @ ''Sinks:'' @ [CHR 0x0A] @ ''   97. VM-GAME [vol: 1.00]'' @ [CHR 0x0A]
             @ ''*  103. Astro A50 Game [vol: 1.00]'' @ [CHR 0x0A] @ ''Sources:'' @ post
      = pre @ (''Sinks:'' @ CHR 0x0A # (''   97. VM-GAME [vol: 1.00]'' @ CHR 0x0A
             # (''*  103. Astro A50 Game [vol: 1.00]'' @ CHR 0x0A # src)))"
    by (simp add: src_def)
  have lines: "splitlines (pre @ ''Sinks:'' @ [CHR 0x0A] @ ''   97. VM-GAME [vol: 1.00]'' @ [CHR 0x0A]
             @ ''*  103. Astro A50 Game [vol: 1.00]'' @ [CHR 0x0A] @ ''Sources:'' @ post)
      = splitlines pre @ (''Sinks:'' # ''   97. VM-GAME [vol: 1.00]''
          # ''*  103. Astro A50 Game [vol: 1.00]''
          # (''Sources:'' @ takeWhile (\<lambda>x. \<not> is_linebreak x) post) # ls)"
    unfolding shape splitlines_append[OF assms(2)] s1 s2 s3 s4 ..
  have "scan_lines (int_max_str_digits w) False []
      (splitlines pre @ (''Sinks:'' # ''   97. VM-GAME [vol: 1.00]''
          # ''*  103. Astro A50 Game [vol: 1.00]''
          # (''Sources:'' @ takeWhile (\<lambda>x. \<not> is_linebreak x) post) # ls))
      = Inr [(''VM-GAME'', 97), (''Astro A50 Game'', 103)]"
    unfolding scan_lines_before_header[OF assms(3)] by (rule scan_example_section)
  then have "scan_lines (int_max_str_digits w) False []
      (splitlines (pre @ ''Sinks:'' @ [CHR 0x0A] @ ''   97. VM-GAME [vol: 1.00]'' @ [CHR 0x0A]
             @ ''*  103. Astro A50 Game [vol: 1.00]'' @ [CHR 0x0A] @ ''Sources:'' @ post))
      = Inr [(''VM-GAME'', 97), (''Astro A50 Game'', 103)]"
    by (simp only: lines)
  then show ?thesis
    by (simp only: get_sink_ids_by_description_def sh_def assms(1) prod.case sum.case)
qed


theorem example_sink_table_witness:
  "splitlines (''PipeWire'' @ [CHR 0x0A] @ ''Audio'' @ [CHR 0x0A]) = [''PipeWire'', ''Audio'']
   \<and> get_sink_ids_by_description
        (example_world
          ((''PipeWire'' @ [CHR 0x0A] @ ''Audio'' @ [CHR 0x0A])
             @ ''Sinks:'' @ [CHR 0x0A] @ ''   97. VM-GAME [vol: 1.00]'' @ [CHR 0x0A]
             @ ''*  103. Astro A50 Game [vol: 1.00]'' @ [CHR 0x0A] @ ''Sources:''
             @ ([CHR 0x0A] @ ''   55. VM-GAME [vol: 1.00]'' @ [CHR 0x0A])) []) []
       = (Inr [(''VM-GAME'', 97), (''Astro A50 Game'', 103)], [Sh [''wpctl'', ''status'']])"
proof -
  let ?pre = "''PipeWire'' @ [CHR 0x0A] @ ''Audio'' @ [CHR 0x0A]"
  let ?post = "[CHR 0x0A] @ ''   55. VM-GAME [vol: 1.00]'' @ [CHR 0x0A]"
  let ?txt = "?pre @ ''Sinks:'' @ [CHR 0x0A] @ ''   97. VM-GAME [vol: 1.00]'' @ [CHR 0x0A]
             @ ''*  103. Astro A50 Game [vol: 1.00]'' @ [CHR 0x0A] @ ''Sources:'' @ ?post"
  have c: "check_output (example_world ?txt []) [] [''wpctl'', ''status''] = Inr ?txt"
    by (simp add: example_world_def)
  have l: "?pre = [] \<or> last ?pre = CHR 0x0A" by simp
  have s: "splitlines ?pre = [''PipeWire'', ''Audio'']" by code_simp
  have "list_all (\<lambda>line. \<not> startswith (strip line) ''Sinks:'') [''PipeWire'', ''Audio'']"
    by code_simp
  then have n: "\<forall>line \<in> set (splitlines ?pre). \<not> startswith (strip line) ''Sinks:''"
    unfolding s by (simp only: list_all_iff)
  from example_sink_table [OF c l n]
  have "get_sink_ids_by_description (example_world ?txt []) []
       = (Inr [(''VM-GAME'', 97), (''Astro A50 Game'', 103)], [] @ [Sh [''wpctl'', ''status'']])" .
  with s show ?thesis by simp
qed

section \<open>Repeated resolution\<close>

text \<open>
  C8. Sink resolution and port location keep no state between calls. When the status
  command prints the same text \<open>txt\<close> and the MIDI backend lists the same ports whatever
  happened before, the sink resolver returns the mapping scanned from \<open>txt\<close> and the port
  locator returns the same result after every trace: in particular a call made right after
  another call, on the trace the first one left, returns what the first one returned.
\<close>

theorem resolvers_are_stateless:
  assumes "\<forall>h. check_output w h [''wpctl'', ''status''] = Inr txt"
    and "\<forall>h. get_input_names w h = ports"
  shows "fst (get_sink_ids_by_description w tr)
            = scan_lines (int_max_str_digits w) False [] (splitlines txt)
     \<and> fst (get_sink_ids_by_description w tr') = fst (get_sink_ids_by_description w tr)
     \<and> fst (get_sink_ids_by_description w (snd (get_sink_ids_by_description w tr)))
            = fst (get_sink_ids_by_description w tr)
     \<and> fst (find_midi_port w tr') = fst (find_midi_port w tr)
     \<and> fst (find_midi_port w (snd (find_midi_port w tr))) = fst (find_midi_port w tr)"
proof -
  have g: "fst (get_sink_ids_by_description w h)
      = scan_lines (int_max_str_digits w) False [] (splitlines txt)" for h
    using assms(1) by (simp add: get_sink_ids_by_description_def sh_def)
  have f: "fst (find_midi_port w h) = fst (find_midi_port w [])" for h
    using assms(2) by (simp add: find_midi_port_def Let_def)
  show ?thesis
    using g f by metis
qed

theorem resolvers_are_stateless_witness:
  "fst (get_sink_ids_by_description (example_world example_status [''Midi Through'', ''LPD8 MIDI 1''])
          (snd (get_sink_ids_by_description
                  (example_world example_status [''Midi Through'', ''LPD8 MIDI 1'']) [])))
     = Inr [(''VM-GAME'', 97), (''Astro A50 Game'', 103)]
   \<and> fst (get_sink_ids_by_description (example_world example_status [''Midi Through'', ''LPD8 MIDI 1'']) [])
     = Inr [(''VM-GAME'', 97), (''Astro A50 Game'', 103)]
   \<and> fst (find_midi_port (example_world example_status [''Midi Through'', ''LPD8 MIDI 1''])
          (snd (find_midi_port (example_world example_status [''Midi Through'', ''LPD8 MIDI 1'']) [])))
     = fst (find_midi_port (example_world example_status [''Midi Through'', ''LPD8 MIDI 1'']) [])"
proof -
  let ?w = "example_world example_status [''Midi Through'', ''LPD8 MIDI 1'']"
  have c: "\<forall>h. check_output ?w h [''wpctl'', ''status''] = Inr example_status"
    by (simp add: example_world_def)
  have p: "\<forall>h. get_input_names ?w h = [''Midi Through'', ''LPD8 MIDI 1'']"
    by (simp add: example_world_def)
  have m: "int_max_str_digits ?w = 4300" by (simp add: example_world_def)
  note t = resolvers_are_stateless [OF c p, of "[]" "[]", unfolded m example_status_sinks]
  from t show ?thesis by simp
qed

end
